theory Spec2Isabelle
  imports Main
begin

section \<open>Text, character classes and decimal numbers\<close>

text \<open>
  The script works on Python \<open>str\<close> values. A text is modelled as a \<open>string\<close>, each
  \<open>char\<close> standing for one code point below 256. On that range the classes of Python's
  \<open>re\<close> module (for \<open>str\<close> patterns) are: \<open>\d\<close> is exactly \<open>0\<close>..\<open>9\<close>, and \<open>\w\<close> is the ASCII
  letters and digits, the underscore, and the Latin-1 code points for which \<open>str.isalnum\<close> holds.
\<close>

definition is_digit :: "char \<Rightarrow> bool" where
  "is_digit c = (let n = (of_char c :: nat) in 48 \<le> n \<and> n \<le> 57)"

definition is_word :: "char \<Rightarrow> bool" where
  "is_word c =
     (let n = (of_char c :: nat) in
        (48 \<le> n \<and> n \<le> 57) \<or> (65 \<le> n \<and> n \<le> 90) \<or> n = 95 \<or> (97 \<le> n \<and> n \<le> 122)
        \<or> n = 170 \<or> n = 178 \<or> n = 179 \<or> n = 181 \<or> n = 185 \<or> n = 186
        \<or> n = 188 \<or> n = 189 \<or> n = 190
        \<or> (192 \<le> n \<and> n \<le> 214) \<or> (216 \<le> n \<and> n \<le> 246) \<or> (248 \<le> n \<and> n \<le> 255))"

text \<open>The number that a string of decimal digits denotes, and the decimal numeral of a
  natural number (without leading zeros, \<open>0\<close> for zero).\<close>

definition digit_val :: "char \<Rightarrow> nat" where
  "digit_val c = of_char c - 48"

definition nat_of_digits :: "string \<Rightarrow> nat" where
  "nat_of_digits ds = foldl (\<lambda>a c. 10 * a + digit_val c) 0 ds"

fun dec :: "nat \<Rightarrow> string" where
  "dec n = (if n < 10 then [char_of (48 + n)]
            else dec (n div 10) @ [char_of (48 + n mod 10)])"

declare dec.simps [simp del]

text \<open>The numeral filled with zeros on the left up to width 2 and never cut.\<close>

definition zfill2 :: "nat \<Rightarrow> string" where
  "zfill2 n = (let d = dec n in replicate (2 - length d) (CHR ''0'') @ d)"

text \<open>
  The interpreter converts between \<open>int\<close> and decimal text only up to a number of digits,
  \<open>sys.int_info.default_max_str_digits\<close>, and raises \<open>ValueError\<close> beyond it: \<open>int(s)\<close> when
  the digit string \<open>s\<close> is longer (leading zeros count), and the format specification
  \<open>02d\<close> when the numeral to print is longer. The script does not change the limit.
\<close>

datatype error = ValueError

definition int_max_str_digits :: nat where
  "int_max_str_digits = 4300"

text \<open>\<open>int(patch)\<close> on a string of decimal digits.\<close>

definition int_of_digits :: "string \<Rightarrow> error + nat" where
  "int_of_digits ds =
     (if int_max_str_digits < length ds then Inl ValueError else Inr (nat_of_digits ds))"

text \<open>The format specification \<open>02d\<close> on a number that is not negative.\<close>

definition fmt_02d :: "nat \<Rightarrow> error + string" where
  "fmt_02d n =
     (if int_max_str_digits < length (dec n) then Inl ValueError else Inr (zfill2 n))"

section \<open>A backtracking matcher for the regular expressions of the script\<close>

text \<open>
  The fragment of Python's \<open>re\<close> syntax that the two patterns use: literal text, a character
  class, concatenation, alternation \<open>a|b\<close>, the greedy repetition \<open>a+\<close> and a numbered
  capturing group.
\<close>

datatype citem = Word | Digit | Single char

datatype regex =
    Str string
  | Cls "citem list"
  | Cat regex regex
  | Alt regex regex
  | Plus regex
  | Grp nat regex

fun in_item :: "citem \<Rightarrow> char \<Rightarrow> bool" where
  "in_item Word c = is_word c"
| "in_item Digit c = is_digit c"
| "in_item (Single x) c = (c = x)"

definition in_class :: "citem list \<Rightarrow> char \<Rightarrow> bool" where
  "in_class cs c = list_ex (\<lambda>i. in_item i c) cs"

text \<open>
  A matcher state is the captures so far and the text still to read. \<open>ms r st\<close> lists, in
  the order in which the backtracking engine tries them, the states in which a match of \<open>r\<close>
  started in \<open>st\<close> can end: the left branch of an alternation before the right one, one more
  round of a repetition before stopping. The engine's answer is the first state of the list.
\<close>

type_synonym caps = "nat \<rightharpoonup> string"
type_synonym mstate = "caps \<times> string"

fun ms :: "regex \<Rightarrow> mstate \<Rightarrow> mstate list" where
  "ms (Str w) st =
     (if take (length w) (snd st) = w then [(fst st, drop (length w) (snd st))] else [])"
| "ms (Cls cs) st =
     (case snd st of [] \<Rightarrow> [] | c # r \<Rightarrow> if in_class cs c then [(fst st, r)] else [])"
| "ms (Cat a b) st = concat (map (ms b) (ms a st))"
| "ms (Alt a b) st = ms a st @ ms b st"
| "ms (Plus a) st =
     concat (map (\<lambda>st'. (if length (snd st') < length (snd st) then ms (Plus a) st' else [])
                          @ [st'])
                 (ms a st))"
| "ms (Grp n a) st =
     map (\<lambda>st'. ((fst st')(n \<mapsto> take (length (snd st) - length (snd st')) (snd st)), snd st'))
         (ms a st)"

text \<open>\<open>re.match(r, s)\<close>: the match of \<open>r\<close> at the start of \<open>s\<close>, or \<open>None\<close>.\<close>

definition re_match :: "regex \<Rightarrow> string \<Rightarrow> mstate option" where
  "re_match r s = (case ms r (Map.empty, s) of [] \<Rightarrow> None | m # _ \<Rightarrow> Some m)"

text \<open>\<open>match.group(n)\<close> of a group that took part in the match.\<close>

definition group :: "caps \<Rightarrow> nat \<Rightarrow> string" where
  "group g n = the (g n)"

section \<open>The version incrementer\<close>

text \<open>The pattern \<^verbatim>\<open>(\d+)\.(\d+)\.(\d+)\<close>.\<close>

definition digits_re :: "nat \<Rightarrow> regex" where
  "digits_re n = Grp n (Plus (Cls [Digit]))"

definition version_re :: regex where
  "version_re =
     Cat (digits_re 1) (Cat (Str ''.'') (Cat (digits_re 2) (Cat (Str ''.'') (digits_re 3))))"

text \<open>
  \<open>increment_version\<close>: the result is the returned string, or the \<open>ValueError\<close> that
  \<open>int(patch)\<close> or the formatting of \<open>new_patch\<close> raises; the function does not catch it.
\<close>

definition increment_version :: "string \<Rightarrow> error + string" where
  "increment_version version_string =
     (case re_match version_re version_string of
        None \<Rightarrow> Inr version_string
      | Some m \<Rightarrow>
          (let major = group (fst m) 1; minor = group (fst m) 2; patch = group (fst m) 3 in
           case int_of_digits patch of
             Inl e \<Rightarrow> Inl e
           | Inr n \<Rightarrow>
               (let new_patch = n + 1 in
                case fmt_02d new_patch of
                  Inl e \<Rightarrow> Inl e
                | Inr p \<Rightarrow> Inr (major @ ''.'' @ minor @ ''.'' @ p))))"

section \<open>Rewriting the version parameters of a text\<close>

text \<open>\<open>CDN_URL_PATTERN\<close> is literal text throughout (its dots are escaped).\<close>

definition CDN_URL :: string where
  "CDN_URL = ''https://pub-85443b585f1e4411ab5cc976c4fb08ca.r2.dev/''"

text \<open>The class \<^verbatim>\<open>[\w_.-]\<close>.\<close>

definition name_class :: "citem list" where
  "name_class = [Word, Single (CHR ''_''), Single (CHR ''.''), Single (CHR ''-'')]"

text \<open>
  The compiled pattern
  \<^verbatim>\<open>(CDN_URL_PATTERN[\w_.-]+\.(?:js|css))\?v=(\d+)\.(\d+)\.(\d+)\<close>:
  group 1 is the URL up to the extension, groups 2 to 4 are the version numbers;
  \<open>ext_re\<close> is the part \<^verbatim>\<open>\.(?:js|css)\<close>.
\<close>

definition ext_re :: regex where
  "ext_re = Cat (Str ''.'') (Alt (Str ''js'') (Str ''css''))"

definition cdn_re :: regex where
  "cdn_re =
     Cat (Grp 1 (Cat (Str CDN_URL) (Cat (Plus (Cls name_class)) ext_re)))
    (Cat (Str ''?v='')
    (Cat (digits_re 2) (Cat (Str ''.'') (Cat (digits_re 3) (Cat (Str ''.'') (digits_re 4))))))"

text \<open>\<open>s.split(d)\<close> for a one-character separator: never empty, one more part than separators.\<close>

fun split_on :: "char \<Rightarrow> string \<Rightarrow> string list" where
  "split_on d [] = [[]]"
| "split_on d (c # cs) =
     (if c = d then [] # split_on d cs
      else (case split_on d cs of [] \<Rightarrow> [[c]] | p # ps \<Rightarrow> (c # p) # ps))"

text \<open>
  \<open>pattern.sub(repl, s)\<close> with a function \<open>repl\<close> that also updates variables of the enclosing
  scope and may raise: the scan goes left to right; at a match the replacement is emitted
  and the scan goes on behind the match; where there is no match one character is copied.
  The variables that \<open>repl\<close> updates are threaded through as \<open>a\<close>. An error raised by \<open>repl\<close>
  ends the substitution and is its result. (After an empty match the engine copies one
  character, so that the scan always advances.)
\<close>

function re_sub ::
  "regex \<Rightarrow> (caps \<Rightarrow> 'a \<Rightarrow> error + string \<times> 'a) \<Rightarrow> string \<Rightarrow> 'a \<Rightarrow> error + string \<times> 'a" where
  "re_sub r f s a =
     (case re_match r s of
        Some m \<Rightarrow>
          (case f (fst m) a of
             Inl e \<Rightarrow> Inl e
           | Inr oa \<Rightarrow>
               if length (snd m) < length s then
                 (case re_sub r f (snd m) (snd oa) of
                    Inl e \<Rightarrow> Inl e
                  | Inr ra \<Rightarrow> Inr (fst oa @ fst ra, snd ra))
               else
                 (case s of
                    [] \<Rightarrow> Inr oa
                  | c # cs \<Rightarrow>
                      (case re_sub r f cs (snd oa) of
                         Inl e \<Rightarrow> Inl e
                       | Inr ra \<Rightarrow> Inr (fst oa @ c # fst ra, snd ra))))
      | None \<Rightarrow>
          (case s of
             [] \<Rightarrow> Inr ([], a)
           | c # cs \<Rightarrow>
               (case re_sub r f cs a of
                  Inl e \<Rightarrow> Inl e
                | Inr ra \<Rightarrow> Inr (c # fst ra, snd ra))))"
  by pat_completeness auto
termination
  by (relation "measure (\<lambda>(r, f, s, a). length s)") auto

declare re_sub.simps [simp del]

text \<open>The two variables of \<open>update_cdn_versions\<close> that \<open>replace_version\<close> updates:
  \<open>change_count\<close> and the dictionary \<open>version_changes\<close>. When \<open>increment_version\<close> raises,
  \<open>replace_version\<close> has updated neither.\<close>

type_synonym changes = "string \<rightharpoonup> string \<times> string"

definition replace_version ::
  "caps \<Rightarrow> nat \<times> changes \<Rightarrow> error + string \<times> (nat \<times> changes)" where
  "replace_version g a =
     (let url_base = group g 1; major = group g 2; minor = group g 3; patch = group g 4;
          old_version = major @ ''.'' @ minor @ ''.'' @ patch
      in case increment_version old_version of
           Inl e \<Rightarrow> Inl e
         | Inr new_version \<Rightarrow>
             (let filename = last (split_on (CHR ''/'') url_base)
              in Inr (url_base @ ''?v='' @ new_version,
                      (fst a + 1, (snd a)(filename \<mapsto> (old_version, new_version))))))"

text \<open>\<open>update_cdn_versions\<close>: the triple it returns, or the error that came out of the
  substitution.\<close>

definition update_cdn_versions :: "string \<Rightarrow> error + string \<times> nat \<times> changes" where
  "update_cdn_versions content =
     (case re_sub cdn_re replace_version content (0, Map.empty) of
        Inl e \<Rightarrow> Inl e
      | Inr ra \<Rightarrow> Inr (fst ra, fst (snd ra), snd (snd ra)))"

section \<open>The file driver\<close>

text \<open>
  What the driver sees of the file system: a file that cannot be read (absent, a directory,
  not UTF-8, no permission), or a file with its text and whether it can be opened for
  writing. The world also records every completed write and every message printed on the
  error stream: that a file could not be processed, or that the HTML directory was not
  found. What goes to standard output is not part of the model.
\<close>

type_synonym path = string

datatype file_state = Unreadable | File string bool

datatype message = Error_processing path | Directory_not_found

record world =
  files :: "path \<Rightarrow> file_state"
  writes :: "(path \<times> string) list"
  errors :: "message list"

text \<open>
  \<open>process_html_file\<close>: the \<open>except Exception\<close> clause takes a failed read, an error raised
  by \<open>update_cdn_versions\<close> and a failed write alike: the message goes to the error stream
  and the result is \<open>(False, 0, {})\<close>.
\<close>

definition process_html_file :: "path \<Rightarrow> world \<Rightarrow> world \<times> (bool \<times> nat \<times> changes)" where
  "process_html_file file_path w =
     (case files w file_path of
        Unreadable \<Rightarrow> (w\<lparr>errors := errors w @ [Error_processing file_path]\<rparr>, (False, 0, Map.empty))
      | File content writable \<Rightarrow>
          (case update_cdn_versions content of
             Inl e \<Rightarrow> (w\<lparr>errors := errors w @ [Error_processing file_path]\<rparr>, (False, 0, Map.empty))
           | Inr (updated_content, change_count, version_changes) \<Rightarrow>
               if change_count > 0 then
                 (if writable then
                    (w\<lparr>files := (files w)(file_path := File updated_content writable),
                       writes := writes w @ [(file_path, updated_content)]\<rparr>,
                     (True, change_count, version_changes))
                  else (w\<lparr>errors := errors w @ [Error_processing file_path]\<rparr>, (False, 0, Map.empty)))
               else (w, (True, 0, Map.empty))))"

text \<open>The merge into the run-wide summary: a filename already present is not overwritten.\<close>

definition merge_changes :: "changes \<Rightarrow> changes \<Rightarrow> changes" where
  "merge_changes all_version_changes version_changes =
     (\<lambda>filename. case all_version_changes filename of
                    Some v \<Rightarrow> Some v
                  | None \<Rightarrow> version_changes filename)"

record totals =
  total_changes :: nat
  files_modified :: nat
  all_version_changes :: changes

text \<open>The loop of \<open>main\<close> over the files found.\<close>

fun process_files :: "path list \<Rightarrow> world \<Rightarrow> totals \<Rightarrow> world \<times> totals" where
  "process_files [] w t = (w, t)"
| "process_files (file_path # rest) w t =
     (case process_html_file file_path w of
        (w', success, change_count, version_changes) \<Rightarrow>
          if success \<and> change_count > 0 then
            process_files rest w'
              \<lparr>total_changes = total_changes t + change_count,
               files_modified = files_modified t + 1,
               all_version_changes = merge_changes (all_version_changes t) version_changes\<rparr>
          else process_files rest w' t)"


section \<open>Notions used in the statements\<close>

subsection \<open>Versions\<close>

text \<open>A decimal digit group, and a text that does not go on with a digit.\<close>

definition digits :: "string \<Rightarrow> bool" where
  "digits ds = (ds \<noteq> [] \<and> list_all is_digit ds)"

definition no_digit_next :: "string \<Rightarrow> bool" where
  "no_digit_next r = (case r of [] \<Rightarrow> True | c # _ \<Rightarrow> \<not> is_digit c)"

text \<open>The text begins with a MAJOR.MINOR.PATCH triple of digit groups.\<close>

definition has_version_prefix :: "string \<Rightarrow> bool" where
  "has_version_prefix s =
     (\<exists>major minor patch rest.
        s = major @ ''.'' @ minor @ ''.'' @ patch @ rest
        \<and> digits major \<and> digits minor \<and> digits patch)"

text \<open>A patch group that the interpreter can increment: the group itself and the numeral
  of its successor have no more digits than the interpreter converts. (For a digit group
  that is: at most 4300 digits, and not 4300 nines.)\<close>

definition patch_fits :: "string \<Rightarrow> bool" where
  "patch_fits patch =
     (length patch \<le> int_max_str_digits
      \<and> length (dec (nat_of_digits patch + 1)) \<le> int_max_str_digits)"

subsection \<open>Qualifying occurrences\<close>

text \<open>
  The matching rule in words: the fixed host prefix, a filename made of a non-empty stem
  of word characters, dots, underscores or hyphens and the extension \<open>.js\<close> or \<open>.css\<close>,
  then \<open>?v=\<close> and three dot-separated digit groups. These definitions do not mention the
  matcher; the theorems below relate them to it.
\<close>

definition is_name_char :: "char \<Rightarrow> bool" where
  "is_name_char c = (is_word c \<or> c = CHR ''_'' \<or> c = CHR ''.'' \<or> c = CHR ''-'')"

definition name_stem :: "string \<Rightarrow> bool" where
  "name_stem stem = (stem \<noteq> [] \<and> list_all is_name_char stem)"

definition is_ext :: "string \<Rightarrow> bool" where
  "is_ext ext = (ext = ''.js'' \<or> ext = ''.css'')"

definition qualifies :: "string \<Rightarrow> bool" where
  "qualifies w =
     (\<exists>stem ext major minor patch.
        w = CDN_URL @ stem @ ext @ ''?v='' @ major @ ''.'' @ minor @ ''.'' @ patch
        \<and> name_stem stem \<and> is_ext ext \<and> digits major \<and> digits minor \<and> digits patch)"

text \<open>A qualifying occurrence starts at the beginning of the text; the positions of a
  content at which one starts.\<close>

definition starts_occurrence :: "string \<Rightarrow> bool" where
  "starts_occurrence s = (\<exists>w r. s = w @ r \<and> qualifies w)"

definition occurrence_positions :: "string \<Rightarrow> nat set" where
  "occurrence_positions content =
     {i. i < length content \<and> starts_occurrence (drop i content)}"

subsection \<open>The scan of a content\<close>

text \<open>
  A content read left to right as a sequence of segments: a plain character, or a matched
  occurrence given by its stem, extension and three digit groups. \<open>seg_src\<close> is the text of
  a segment in the input; \<open>seg_out\<close> is what stands for it in the output: the character
  itself, or the captured base, \<open>?v=\<close> and the version with its patch incremented.
  \<open>seg_fits\<close>: the patch group of a matched occurrence can be incremented.
\<close>

datatype seg = Plain char | Ref string string string string string

fun seg_src :: "seg \<Rightarrow> string" where
  "seg_src (Plain c) = [c]"
| "seg_src (Ref stem ext major minor patch) =
     CDN_URL @ stem @ ext @ ''?v='' @ major @ ''.'' @ minor @ ''.'' @ patch"

fun seg_out :: "seg \<Rightarrow> string" where
  "seg_out (Plain c) = [c]"
| "seg_out (Ref stem ext major minor patch) =
     CDN_URL @ stem @ ext @ ''?v='' @ major @ ''.'' @ minor @ ''.''
       @ zfill2 (nat_of_digits patch + 1)"

fun seg_ok :: "seg \<Rightarrow> bool" where
  "seg_ok (Plain c) = True"
| "seg_ok (Ref stem ext major minor patch) =
     (name_stem stem \<and> is_ext ext \<and> digits major \<and> digits minor \<and> digits patch)"

fun seg_fits :: "seg \<Rightarrow> bool" where
  "seg_fits (Plain c) = True"
| "seg_fits (Ref stem ext major minor patch) = patch_fits patch"

fun is_ref :: "seg \<Rightarrow> bool" where
  "is_ref (Plain c) = False"
| "is_ref (Ref stem ext major minor patch) = True"

text \<open>
  Matching that is left to right, global and not overlapping: where no qualifying
  occurrence starts, one character is plain; where one starts, it is taken with its patch
  group read to the end, and the scan goes on behind it.
\<close>

inductive scan :: "string \<Rightarrow> seg list \<Rightarrow> bool" where
  scan_Nil: "scan [] []"
| scan_Plain: "\<not> starts_occurrence (c # cs) \<Longrightarrow> scan cs segs \<Longrightarrow> scan (c # cs) (Plain c # segs)"
| scan_Ref: "seg_ok (Ref stem ext major minor patch) \<Longrightarrow> no_digit_next rest \<Longrightarrow> scan rest segs
    \<Longrightarrow> scan (seg_src (Ref stem ext major minor patch) @ rest) (Ref stem ext major minor patch # segs)"

text \<open>The dictionary of changes that a sequence of segments leaves: each matched
  occurrence puts its old and new version under its filename, a later one over an earlier
  one.\<close>

fun seg_change :: "changes \<Rightarrow> seg \<Rightarrow> changes" where
  "seg_change m (Plain c) = m"
| "seg_change m (Ref stem ext major minor patch) =
     m(stem @ ext \<mapsto> (major @ ''.'' @ minor @ ''.'' @ patch,
                        major @ ''.'' @ minor @ ''.'' @ zfill2 (nat_of_digits patch + 1)))"

definition changes_of :: "seg list \<Rightarrow> changes" where
  "changes_of segs = foldl seg_change Map.empty segs"

text \<open>A segment with its patch incremented once.\<close>

fun bump :: "seg \<Rightarrow> seg" where
  "bump (Plain c) = Plain c"
| "bump (Ref stem ext major minor patch) =
     Ref stem ext major minor (zfill2 (nat_of_digits patch + 1))"

subsection \<open>What the driver does to one file\<close>



section \<open>Notions used in the proofs\<close>

text \<open>A pattern that cannot start at a digit.\<close>

definition no_digit_start :: "regex \<Rightarrow> bool" where
  "no_digit_start b = (\<forall>g c u. is_digit c \<longrightarrow> ms b (g, c # u) = [])"

text \<open>The texts that a pattern can match at all, whatever the order of the attempts.\<close>

primrec lang :: "regex \<Rightarrow> string set" where
  "lang (Str w) = {w}"
| "lang (Cls cs) = {[c] |c. in_class cs c}"
| "lang (Cat a b) = {u @ v |u v. u \<in> lang a \<and> v \<in> lang b}"
| "lang (Alt a b) = lang a \<union> lang b"
| "lang (Plus a) = {concat ws |ws. ws \<noteq> [] \<and> set ws \<subseteq> lang a}"
| "lang (Grp n a) = lang a"

text \<open>The effect of one segment on the two variables of \<open>update_cdn_versions\<close>.\<close>

fun seg_step :: "nat \<times> changes \<Rightarrow> seg \<Rightarrow> nat \<times> changes" where
  "seg_step a (Plain c) = a"
| "seg_step a (Ref stem ext major minor patch) =
     (fst a + 1,
      (snd a)(stem @ ext \<mapsto> (major @ ''.'' @ minor @ ''.'' @ patch,
                               major @ ''.'' @ minor @ ''.'' @ zfill2 (nat_of_digits patch + 1))))"

text \<open>A text that is empty or begins with the host prefix.\<close>

definition at_boundary :: "string \<Rightarrow> bool" where
  "at_boundary x = (x = [] \<or> (\<exists>t. x = CDN_URL @ t))"

section \<open>Small inputs\<close>

text \<open>Three pages and a world of two files, on which the theorems are run; a world whose
  file cannot be written; and a page with a repeated filename whose second patch group has
  4301 digits, with a world that holds it.\<close>

definition page_one :: string where
  "page_one = CDN_URL @ ''a.js?v=1.1.9''"

definition page_two :: string where
  "page_two = CDN_URL @ ''a.js?v=1.1.9 '' @ CDN_URL @ ''b.css?v=2.0.99''"

definition page_twice :: string where
  "page_twice = CDN_URL @ ''a.js?v=1.0.1 '' @ CDN_URL @ ''a.js?v=2.0.5''"

definition world_one :: world where
  "world_one =
     \<lparr>files = (\<lambda>p. if p = ''a.html'' then File page_one True
                    else if p = ''b.html'' then File ''<p>plain</p>'' True
                    else Unreadable),
      writes = [], errors = []\<rparr>"


definition page_overlong :: string where
  "page_overlong =
     CDN_URL @ ''a.js?v=1.0.1 '' @ CDN_URL @ ''a.js?v=2.0.'' @ replicate 4301 (CHR ''1'')"

definition world_overlong :: world where
  "world_overlong =
     \<lparr>files = (\<lambda>p. if p = ''d.html'' then File page_overlong True else Unreadable),
      writes = [], errors = []\<rparr>"

definition totals_zero :: totals where
  "totals_zero = \<lparr>total_changes = 0, files_modified = 0, all_version_changes = Map.empty\<rparr>"

section \<open>Properties of the matcher\<close>

declare ms.simps(5) [simp del]

lemma ms_Plus_Cls_Nil: "ms (Plus (Cls cs)) (g, []) = []"
  by (simp add: ms.simps(5))

lemma ms_Plus_Cls_Cons:
  "ms (Plus (Cls cs)) (g, c # r) =
     (if in_class cs c then ms (Plus (Cls cs)) (g, r) @ [(g, r)] else [])"
  by (simp add: ms.simps(5))

lemma in_class_Digit [simp]: "in_class [Digit] c = is_digit c"
  by (simp add: in_class_def)

lemma in_class_name: "in_class name_class c = (is_word c \<or> c = CHR ''.'' \<or> c = CHR ''-'')"
  by (auto simp: in_class_def name_class_def is_word_def)

lemma is_digit_word: "is_digit c \<Longrightarrow> is_word c"
  by (simp add: is_digit_def is_word_def Let_def)

lemma ms_Plus_Cls:
  "ms (Plus (Cls cs)) (g, s) =
     map (\<lambda>i. (g, drop i s)) (rev [1..<Suc (length (takeWhile (in_class cs) s))])"
proof (induction s)
  case Nil
  show ?case by (simp add: ms_Plus_Cls_Nil)
next
  case (Cons c r)
  show ?case
  proof (cases "in_class cs c")
    case False
    then show ?thesis by (simp add: ms_Plus_Cls_Cons)
  next
    case True
    let ?k = "length (takeWhile (in_class cs) r)"
    have upt: "[1..<Suc (Suc ?k)] = 1 # map Suc [1..<Suc ?k]"
      by (simp add: upt_conv_Cons map_Suc_upt del: upt_Suc)
    have "ms (Plus (Cls cs)) (g, c # r) = ms (Plus (Cls cs)) (g, r) @ [(g, r)]"
      using True by (simp add: ms_Plus_Cls_Cons)
    also have "\<dots> = map (\<lambda>i. (g, drop i r)) (rev [1..<Suc ?k]) @ [(g, r)]"
      by (simp only: Cons.IH)
    also have "\<dots> = map (\<lambda>i. (g, drop i (c # r))) (rev [1..<Suc (Suc ?k)])"
      by (simp only: upt) (simp add: rev_map comp_def)
    finally show ?thesis using True by simp
  qed
qed

lemma in_class_Digit_eq: "in_class [Digit] = is_digit"
  by (rule ext) simp

lemma ms_digits_re:
  "ms (digits_re n) (g, s) =
     map (\<lambda>i. (g(n \<mapsto> take i s), drop i s)) (rev [1..<Suc (length (takeWhile is_digit s))])"
proof -
  let ?k = "length (takeWhile is_digit s)"
  have le: "?k \<le> length s"
    by (rule length_takeWhile_le)
  have eq: "take (length s - length (drop i s)) s = take i s" if "i \<in> set (rev [1..<Suc ?k])" for i
  proof -
    from that have "i \<le> ?k" by (simp del: upt_Suc)
    with le have "i \<le> length s" by (rule order_trans[rotated])
    then show ?thesis by simp
  qed
  have "ms (digits_re n) (g, s) =
          map (\<lambda>st'. ((fst st')(n \<mapsto> take (length s - length (snd st')) s), snd st'))
              (map (\<lambda>i. (g, drop i s)) (rev [1..<Suc ?k]))"
    unfolding digits_re_def ms.simps(6) ms_Plus_Cls in_class_Digit_eq by simp
  also have "\<dots> = map (\<lambda>i. (g(n \<mapsto> take (length s - length (drop i s)) s), drop i s)) (rev [1..<Suc ?k])"
    unfolding map_map comp_def by simp
  also have "\<dots> = map (\<lambda>i. (g(n \<mapsto> take i s), drop i s)) (rev [1..<Suc ?k])"
    by (rule map_cong[OF refl]) (simp only: eq)
  finally show ?thesis .
qed

lemma concat_map_all_Nil: "(\<And>x. x \<in> set xs \<Longrightarrow> f x = []) \<Longrightarrow> concat (map f xs) = []"
  by (induction xs) auto

lemma takeWhile_digits_append:
  assumes "list_all is_digit ds" "r = [] \<or> \<not> is_digit (hd r)"
  shows "takeWhile is_digit (ds @ r) = ds"
  using assms by (cases r) (auto simp: list_all_iff takeWhile_append2 intro: takeWhile_eq_all_conv[THEN iffD2])

lemma ms_digits_re_hd:
  assumes ds: "ds \<noteq> []" "list_all is_digit ds"
    and r: "r = [] \<or> \<not> is_digit (hd r)"
  shows "ms (digits_re n) (g, ds @ r) =
           (g(n \<mapsto> ds), r) #
           map (\<lambda>i. (g(n \<mapsto> take i (ds @ r)), drop i (ds @ r))) (rev [1..<length ds])"
proof -
  have tw: "takeWhile is_digit (ds @ r) = ds"
    using ds(2) r by (rule takeWhile_digits_append)
  obtain k where k: "length ds = Suc k" using ds(1) by (cases ds) auto
  have upt: "rev [1..<Suc (length ds)] = length ds # rev [1..<length ds]"
    using k by simp
  show ?thesis
    unfolding ms_digits_re tw upt by simp
qed

lemma no_digit_start_dot: "no_digit_start (Cat (Str ''.'') b)"
  by (auto simp: no_digit_start_def is_digit_def)

lemma ms_digits_then:
  assumes ds: "ds \<noteq> []" "list_all is_digit ds"
    and r: "r = [] \<or> \<not> is_digit (hd r)"
    and b: "no_digit_start b"
  shows "ms (Cat (digits_re n) b) (g, ds @ r) = ms b (g(n \<mapsto> ds), r)"
proof -
  let ?s = "ds @ r"
  have tw: "takeWhile is_digit ?s = ds"
    using ds(2) r by (rule takeWhile_digits_append)
  have nil: "ms b (g(n \<mapsto> take i ?s), drop i ?s) = []" if "i \<in> set (rev [1..<length ds])" for i
  proof -
    from that have i: "i < length ds" by simp
    then have "drop i ?s = (ds ! i) # drop (Suc i) ds @ r"
      by (simp add: Cons_nth_drop_Suc)
    moreover have "is_digit (ds ! i)"
      using ds(2) i by (simp add: list_all_length)
    ultimately show ?thesis using b by (simp add: no_digit_start_def)
  qed
  have "concat (map (ms b) (map (\<lambda>i. (g(n \<mapsto> take i ?s), drop i ?s)) (rev [1..<length ds]))) = []"
    by (rule concat_map_all_Nil) (use nil in auto)
  then show ?thesis
    unfolding ms.simps(3) ms_digits_re_hd[OF ds r] by simp
qed

lemma ms_digits_last:
  assumes ds: "ds \<noteq> []" "list_all is_digit ds"
    and r: "r = [] \<or> \<not> is_digit (hd r)"
  shows "\<exists>ms'. ms (digits_re n) (g, ds @ r) = (g(n \<mapsto> ds), r) # ms'"
  unfolding ms_digits_re_hd[OF assms] by simp

subsection \<open>Decimal numerals\<close>

lemma is_digit_char_of: "(m::nat) < 10 \<Longrightarrow> is_digit (char_of (48 + m))"
  by (simp add: is_digit_def)

lemma digit_val_char_of: "(m::nat) < 10 \<Longrightarrow> digit_val (char_of (48 + m)) = m"
  by (simp add: digit_val_def)

lemma nat_of_digits_snoc: "nat_of_digits (ds @ [c]) = 10 * nat_of_digits ds + digit_val c"
  by (simp add: nat_of_digits_def)

lemma dec_digits: "list_all is_digit (dec n)"
  by (induction n rule: dec.induct) (subst dec.simps, simp add: is_digit_char_of)

lemma dec_nonempty: "dec n \<noteq> []"
  by (subst dec.simps) simp

lemma nat_of_digits_dec: "nat_of_digits (dec n) = n"
proof (induction n rule: dec.induct)
  case (1 n)
  show ?case
  proof (cases "n < 10")
    case True
    then show ?thesis
      by (subst dec.simps) (simp add: nat_of_digits_def digit_val_char_of)
  next
    case False
    with 1 have "nat_of_digits (dec (n div 10)) = n div 10" by simp
    with False show ?thesis
      by (subst dec.simps) (simp add: nat_of_digits_snoc digit_val_char_of)
  qed
qed

lemma hd_dec: "0 < n \<Longrightarrow> hd (dec n) \<noteq> CHR ''0''"
proof (induction n rule: dec.induct)
  case (1 n)
  show ?case
  proof (cases "n < 10")
    case True
    have "char_of (48 + n) \<noteq> CHR ''0''"
    proof
      assume "char_of (48 + n) = CHR ''0''"
      then have "of_char (char_of (48 + n)) = (of_char (CHR ''0'') :: nat)" by simp
      with True \<open>0 < n\<close> show False by simp
    qed
    with True show ?thesis by (subst dec.simps) simp
  next
    case False
    then have "0 < n div 10" by simp
    with 1 False have "hd (dec (n div 10)) \<noteq> CHR ''0''" by simp
    with False show ?thesis
      by (subst dec.simps) (simp add: dec_nonempty)
  qed
qed

lemma length_dec_ge2: "10 \<le> n \<Longrightarrow> 2 \<le> length (dec n)"
  using dec_nonempty[of "n div 10"]
  by (subst dec.simps) (cases "dec (n div 10)"; simp)

lemma dec_small: "n < 10 \<Longrightarrow> dec n = [char_of (48 + n)]"
  by (subst dec.simps) simp

lemma nat_of_digits_zeros: "nat_of_digits (replicate k (CHR ''0'') @ ds) = nat_of_digits ds"
proof -
  have "foldl (\<lambda>a c. 10 * a + digit_val c) 0 (replicate k (CHR ''0'')) = 0"
    by (induction k) (simp_all add: digit_val_def replicate_app_Cons_same)
  then show ?thesis by (simp add: nat_of_digits_def)
qed

lemma zfill2_cases:
  "zfill2 n = (if n < 10 then [CHR ''0'', char_of (48 + n)] else dec n)"
proof (cases "n < 10")
  case True
  then show ?thesis by (simp add: zfill2_def dec_small)
next
  case False
  then have "2 \<le> length (dec n)" by (simp add: length_dec_ge2)
  with False show ?thesis by (simp add: zfill2_def)
qed

lemma zfill2_digits: "digits (zfill2 n)"
  using dec_digits[of n] dec_nonempty[of n]
  by (simp add: zfill2_cases digits_def is_digit_char_of) (simp add: is_digit_def)

lemma nat_of_digits_zfill2: "nat_of_digits (zfill2 n) = n"
  by (simp add: zfill2_def Let_def nat_of_digits_zeros nat_of_digits_dec)

lemma length_zfill2: "2 \<le> length (zfill2 n)"
  by (simp add: zfill2_cases length_dec_ge2)

lemma hd_zfill2: "2 < length (zfill2 n) \<Longrightarrow> hd (zfill2 n) \<noteq> CHR ''0''"
  by (cases "n < 10") (simp_all add: zfill2_cases hd_dec)

subsection \<open>The version pattern\<close>

lemma ms_Str_Cat: "ms (Cat (Str w) b) (g, s) =
   (if take (length w) s = w then ms b (g, drop (length w) s) else [])"
  by simp

lemma no_digit_nextI: "r = [] \<or> \<not> is_digit (hd r) \<Longrightarrow> no_digit_next r"
  by (cases r) (auto simp: no_digit_next_def)

lemma no_digit_nextD: "no_digit_next r \<Longrightarrow> r = [] \<or> \<not> is_digit (hd r)"
  by (cases r) (auto simp: no_digit_next_def)

lemma no_digit_next_dropWhile: "no_digit_next (dropWhile is_digit s)"
  using hd_dropWhile[of is_digit s] by (auto intro: no_digit_nextI)

lemma no_digit_next_dot: "no_digit_next (CHR ''.'' # u)"
  by (simp add: no_digit_next_def is_digit_def)

lemma ms_version_re:
  assumes "digits major" "digits minor" "digits patch" "no_digit_next rest"
  shows "\<exists>ms'. ms version_re (g, major @ ''.'' @ minor @ ''.'' @ patch @ rest)
           = (g(1 \<mapsto> major, 2 \<mapsto> minor, 3 \<mapsto> patch), rest) # ms'"
proof -
  have nd: "\<And>u. CHR ''.'' # u = [] \<or> \<not> is_digit (hd (CHR ''.'' # u))"
    by (simp add: is_digit_def)
  have 1: "ms version_re (g, major @ ''.'' @ minor @ ''.'' @ patch @ rest)
         = ms (Cat (digits_re 2) (Cat (Str ''.'') (digits_re 3))) (g(1 \<mapsto> major), minor @ ''.'' @ patch @ rest)"
    unfolding version_re_def using assms(1) nd
    by (simp add: digits_def ms_digits_then no_digit_start_dot ms_Str_Cat del: ms.simps)
  have 2: "\<dots> = ms (digits_re 3) (g(1 \<mapsto> major, 2 \<mapsto> minor), patch @ rest)"
    using assms(2) nd
    by (simp add: digits_def ms_digits_then no_digit_start_dot ms_Str_Cat del: ms.simps)
  from ms_digits_last[of patch rest 3 "g(1 \<mapsto> major, 2 \<mapsto> minor)"] assms(3,4)
  show ?thesis unfolding 1 2 by (auto simp: digits_def dest: no_digit_nextD)
qed

lemma re_match_version:
  assumes "digits major" "digits minor" "digits patch" "no_digit_next rest"
  shows "re_match version_re (major @ ''.'' @ minor @ ''.'' @ patch @ rest)
           = Some ([1 \<mapsto> major, 2 \<mapsto> minor, 3 \<mapsto> patch], rest)"
  using ms_version_re[OF assms, of Map.empty] by (auto simp: re_match_def)

lemma digits_takeWhile: "takeWhile is_digit s \<noteq> [] \<Longrightarrow> digits (takeWhile is_digit s)"
  by (auto simp: digits_def list_all_iff dest: set_takeWhileD)

lemma ms_digits_re_Nil: "takeWhile is_digit s = [] \<Longrightarrow> ms (digits_re n) (g, s) = []"
  by (simp add: ms_digits_re)

lemma ms_digits_then_gen:
  assumes "no_digit_start b"
  shows "ms (Cat (digits_re n) b) (g, s) =
           (if takeWhile is_digit s = [] then []
            else ms b (g(n \<mapsto> takeWhile is_digit s), dropWhile is_digit s))"
proof (cases "takeWhile is_digit s = []")
  case True
  then show ?thesis by (simp add: ms_digits_re_Nil)
next
  case False
  have "ms (Cat (digits_re n) b) (g, takeWhile is_digit s @ dropWhile is_digit s) =
          ms b (g(n \<mapsto> takeWhile is_digit s), dropWhile is_digit s)"
    using False digits_takeWhile[OF False] no_digit_nextD[OF no_digit_next_dropWhile] assms
    by (intro ms_digits_then) (auto simp: digits_def)
  with False show ?thesis by simp
qed

lemma take_1_eq: "take (Suc 0) r = [c] \<Longrightarrow> r = c # drop (Suc 0) r"
  by (cases r) auto

lemma version_prefix_of_match:
  assumes "ms version_re (g, s) \<noteq> []"
  shows "has_version_prefix s"
proof -
  let ?d1 = "takeWhile is_digit s" and ?r1 = "dropWhile is_digit s"
  let ?s2 = "drop (Suc 0) ?r1"
  let ?d2 = "takeWhile is_digit ?s2" and ?r2 = "dropWhile is_digit ?s2"
  let ?s3 = "drop (Suc 0) ?r2"
  let ?d3 = "takeWhile is_digit ?s3" and ?r3 = "dropWhile is_digit ?s3"
  from assms have d1: "?d1 \<noteq> []" and dot1: "take (Suc 0) ?r1 = ''.''"
    and d2: "?d2 \<noteq> []" and dot2: "take (Suc 0) ?r2 = ''.''"
    and m3: "ms (digits_re 3) (g(1 \<mapsto> ?d1, 2 \<mapsto> ?d2), ?s3) \<noteq> []"
    unfolding version_re_def
    by (simp_all add: ms_digits_then_gen no_digit_start_dot ms_Str_Cat del: ms.simps split: if_splits)
  from m3 have d3: "?d3 \<noteq> []"
    using ms_digits_re_Nil by blast
  have "s = ?d1 @ ?r1" by simp
  also have "?r1 = ''.'' @ ?s2" using take_1_eq[OF dot1] by simp
  also have "?s2 = ?d2 @ ?r2" by simp
  also have "?r2 = ''.'' @ ?s3" using take_1_eq[OF dot2] by simp
  also have "?s3 = ?d3 @ ?r3" by simp
  finally have "s = ?d1 @ ''.'' @ ?d2 @ ''.'' @ ?d3 @ ?r3" .
  with digits_takeWhile[OF d1] digits_takeWhile[OF d2] digits_takeWhile[OF d3]
  show ?thesis unfolding has_version_prefix_def by blast
qed

lemma re_match_version_None: "\<not> has_version_prefix s \<Longrightarrow> re_match version_re s = None"
  using version_prefix_of_match[of Map.empty s]
  by (auto simp: re_match_def split: list.splits)

lemma increment_version_eq:
  assumes "digits major" "digits minor" "digits patch" "no_digit_next rest"
  shows "increment_version (major @ ''.'' @ minor @ ''.'' @ patch @ rest)
           = (if patch_fits patch
              then Inr (major @ ''.'' @ minor @ ''.'' @ zfill2 (nat_of_digits patch + 1))
              else Inl ValueError)"
  unfolding increment_version_def re_match_version[OF assms]
  by (simp add: group_def int_of_digits_def fmt_02d_def patch_fits_def Let_def)

subsection \<open>Numbers at the limit of the interpreter\<close>

lemma nat_of_digits_nines: "nat_of_digits (replicate n (CHR ''9'')) + 1 = 10 ^ n"
proof (induction n)
  case 0
  show ?case by (simp add: nat_of_digits_def)
next
  case (Suc n)
  have "replicate (Suc n) (CHR ''9'') = replicate n (CHR ''9'') @ [CHR ''9'']"
    by (simp add: replicate_append_same)
  then have "nat_of_digits (replicate (Suc n) (CHR ''9'')) + 1
               = 10 * nat_of_digits (replicate n (CHR ''9'')) + 10"
    by (simp only: nat_of_digits_snoc) (simp add: digit_val_def)
  also have "\<dots> = 10 * (nat_of_digits (replicate n (CHR ''9'')) + 1)" by simp
  finally show ?case by (simp only: Suc.IH power_Suc)
qed

lemma char_of_48: "char_of (48::nat) = CHR ''0''"
  by code_simp

lemma char_of_57: "char_of (57::nat) = CHR ''9''"
  by code_simp

lemma dec_power10:
  "dec (10 ^ n) = CHR ''1'' # replicate n (CHR ''0'')"
proof (induction n)
  case 0
  have "dec 1 = ''1''" by code_simp
  then show ?case by simp
next
  case (Suc n)
  have ge: "\<not> (10::nat) ^ Suc n < 10" by simp
  have "dec (10 ^ Suc n) = dec (10 ^ Suc n div 10) @ [char_of (48 + (10::nat) ^ Suc n mod 10)]"
    by (subst dec.simps) (simp only: ge if_False)
  also have "\<dots> = dec (10 ^ n) @ [CHR ''0'']" by (simp add: char_of_48)
  finally show ?case by (simp add: Suc.IH replicate_append_same)
qed

lemma dec_nines: "dec (10 ^ Suc n - 1) = replicate (Suc n) (CHR ''9'')"
proof (induction n)
  case 0
  have "dec 9 = ''9''" by code_simp
  then show ?case by simp
next
  case (Suc n)
  let ?m = "(10::nat) ^ Suc n"
  have pos: "1 \<le> ?m" by simp
  have eq: "10 ^ Suc (Suc n) - 1 = 10 * (?m - 1) + 9"
    using pos by (simp add: algebra_simps)
  have big: "\<not> 10 * (?m - 1) + 9 < 10"
  proof -
    have "(1::nat) \<le> 10 ^ n" by simp
    then have "10 \<le> ?m" by simp
    then show ?thesis by arith
  qed
  have "dec (10 * (?m - 1) + 9)
          = dec ((10 * (?m - 1) + 9) div 10) @ [char_of (48 + (10 * (?m - 1) + 9) mod 10)]"
    by (subst dec.simps) (simp only: big if_False)
  also have "\<dots> = dec (?m - 1) @ [CHR ''9'']" by (simp add: char_of_57)
  finally show ?case
    unfolding eq by (simp only: Suc.IH) (simp add: replicate_append_same)
qed

lemma digits_replicate: "0 < n \<Longrightarrow> is_digit c \<Longrightarrow> digits (replicate n c)"
  by (simp add: digits_def list_all_iff)

lemma patch_fits_too_long: "int_max_str_digits < length patch \<Longrightarrow> \<not> patch_fits patch"
  by (simp add: patch_fits_def)

lemma patch_fits_nines: "\<not> patch_fits (replicate int_max_str_digits (CHR ''9''))"
  unfolding patch_fits_def nat_of_digits_nines dec_power10 by simp

text \<open>For a digit group, to fit is to have at most as many digits as the interpreter
  converts and not to be that many nines.\<close>

lemma digit_val_le: "is_digit c \<Longrightarrow> digit_val c \<le> 9"
  by (auto simp: is_digit_def digit_val_def Let_def)

lemma nat_of_digits_less: "list_all is_digit ds \<Longrightarrow> nat_of_digits ds < 10 ^ length ds"
proof (induction ds rule: rev_induct)
  case Nil
  show ?case by (simp add: nat_of_digits_def)
next
  case (snoc c ds)
  then have a: "nat_of_digits ds < 10 ^ length ds" and c: "digit_val c \<le> 9"
    by (simp_all add: digit_val_le)
  from a have "nat_of_digits ds + 1 \<le> 10 ^ length ds" by simp
  then have "10 * (nat_of_digits ds + 1) \<le> 10 * 10 ^ length ds" by (rule mult_le_mono2)
  with c show ?case by (simp add: nat_of_digits_snoc)
qed

lemma length_dec_le: "m < 10 ^ k \<Longrightarrow> 0 < k \<Longrightarrow> length (dec m) \<le> k"
proof (induction m arbitrary: k rule: dec.induct)
  case (1 n)
  show ?case
  proof (cases "n < 10")
    case True
    with 1(3) show ?thesis by (simp add: dec_small)
  next
    case False
    obtain j where k: "k = Suc j" using 1(3) by (cases k) auto
    have j: "0 < j"
    proof (rule ccontr)
      assume "\<not> 0 < j"
      with k 1(2) False show False by simp
    qed
    from 1(2) have "n div 10 < 10 ^ j" unfolding k by (simp add: less_mult_imp_div_less)
    from 1(1)[OF False this j] have "length (dec (n div 10)) \<le> j" .
    with False show ?thesis unfolding k by (subst dec.simps) simp
  qed
qed

lemma length_dec_gt: "10 ^ k \<le> m \<Longrightarrow> k < length (dec m)"
proof (induction m arbitrary: k rule: dec.induct)
  case (1 n)
  show ?case
  proof (cases "n < 10")
    case True
    have "k = 0"
    proof (rule ccontr)
      assume "k \<noteq> 0"
      then obtain j where "k = Suc j" by (cases k) auto
      moreover have "(1::nat) \<le> 10 ^ j" by simp
      ultimately have "10 \<le> (10::nat) ^ k" by simp
      with 1(2) True show False by simp
    qed
    with True show ?thesis by (simp add: dec_small)
  next
    case False
    show ?thesis
    proof (cases k)
      case 0
      then show ?thesis using dec_nonempty[of n] by simp
    next
      case (Suc j)
      with 1(2) have "10 ^ j \<le> n div 10" by simp
      from 1(1)[OF False this] have "j < length (dec (n div 10))" .
      with False show ?thesis unfolding Suc by (subst dec.simps) simp
    qed
  qed
qed

lemma patch_fits_short:
  assumes "digits patch" "length patch < int_max_str_digits"
  shows "patch_fits patch"
proof -
  from assms(1) have "nat_of_digits patch < 10 ^ length patch"
    by (simp add: digits_def nat_of_digits_less)
  then have "nat_of_digits patch + 1 \<le> 10 ^ length patch" by simp
  also have "\<dots> < 10 ^ Suc (length patch)" by simp
  finally have "length (dec (nat_of_digits patch + 1)) \<le> Suc (length patch)"
    by (rule length_dec_le) simp
  with assms(2) show ?thesis by (simp add: patch_fits_def)
qed

lemma nines_unique:
  "list_all is_digit ds \<Longrightarrow> nat_of_digits ds + 1 = 10 ^ length ds \<Longrightarrow> ds = replicate (length ds) (CHR ''9'')"
proof (induction ds rule: rev_induct)
  case Nil
  show ?case by simp
next
  case (snoc c ds)
  then have d: "list_all is_digit ds" and c: "is_digit c" by simp_all
  from nat_of_digits_less[OF d] have a: "nat_of_digits ds + 1 \<le> 10 ^ length ds" by simp
  from digit_val_le[OF c] have v: "digit_val c \<le> 9" .
  from snoc.prems(2) have e: "10 * nat_of_digits ds + digit_val c + 1 = 10 * 10 ^ length ds"
    by (simp add: nat_of_digits_snoc)
  from a v e have 1: "nat_of_digits ds + 1 = 10 ^ length ds" and 2: "digit_val c = 9" by arith+
  from 2 c have "of_char c = (57::nat)"
    by (simp add: digit_val_def is_digit_def Let_def)
  then have "char_of (of_char c :: nat) = char_of (57::nat)" by simp
  then have c9: "c = CHR ''9''" by (simp add: char_of_57)
  note ds = snoc.IH[OF d 1]
  have "replicate (length (ds @ [c])) (CHR ''9'') = replicate (length ds) (CHR ''9'') @ [CHR ''9'']"
    by (simp add: replicate_append_same)
  also have "\<dots> = ds @ [c]" using ds[symmetric] c9 by simp
  finally show ?case by simp
qed

lemma patch_fits_iff:
  assumes "digits patch"
  shows "patch_fits patch \<longleftrightarrow>
           length patch \<le> int_max_str_digits
           \<and> patch \<noteq> replicate int_max_str_digits (CHR ''9'')"
proof
  assume f: "patch_fits patch"
  then have "length patch \<le> int_max_str_digits" by (simp add: patch_fits_def)
  moreover from f patch_fits_nines have "patch \<noteq> replicate int_max_str_digits (CHR ''9'')"
    by auto
  ultimately show "length patch \<le> int_max_str_digits
           \<and> patch \<noteq> replicate int_max_str_digits (CHR ''9'')" ..
next
  assume a: "length patch \<le> int_max_str_digits
           \<and> patch \<noteq> replicate int_max_str_digits (CHR ''9'')"
  show "patch_fits patch"
  proof (cases "length patch < int_max_str_digits")
    case True
    with assms show ?thesis by (rule patch_fits_short)
  next
    case False
    with a have l: "length patch = int_max_str_digits" by simp
    from assms have d: "list_all is_digit patch" by (simp add: digits_def)
    from nat_of_digits_less[OF d] have le: "nat_of_digits patch + 1 \<le> 10 ^ length patch" by simp
    have "nat_of_digits patch + 1 \<noteq> 10 ^ length patch"
      using nines_unique[OF d] a l by auto
    with le have "nat_of_digits patch + 1 < 10 ^ length patch" by simp
    then have "length (dec (nat_of_digits patch + 1)) \<le> length patch"
      by (rule length_dec_le) (simp add: l int_max_str_digits_def)
    with l show ?thesis by (simp add: patch_fits_def)
  qed
qed

section \<open>The version incrementer: claims\<close>

text \<open>
  Claim C1, amended. If the input begins with a MAJOR.MINOR.PATCH triple of decimal digit
  groups (the patch group taken as long as it goes), and the patch group and the numeral of
  its successor have no more digits than the interpreter converts, \<open>increment_version\<close>
  returns major and minor as they were written, and a patch that is the decimal numeral of
  the input patch plus 1, filled with zeros to at least two digits and never cut: it reads
  back as patch + 1, has at least two digits, and has no leading zero once it is longer
  than two.
\<close>

theorem increment_version_patch:
  assumes "digits major" "digits minor" "digits patch" "no_digit_next rest"
    and "patch_fits patch"
  shows "increment_version (major @ ''.'' @ minor @ ''.'' @ patch @ rest)
           = Inr (major @ ''.'' @ minor @ ''.'' @ zfill2 (nat_of_digits patch + 1))
         \<and> digits (zfill2 (nat_of_digits patch + 1))
         \<and> nat_of_digits (zfill2 (nat_of_digits patch + 1)) = nat_of_digits patch + 1
         \<and> 2 \<le> length (zfill2 (nat_of_digits patch + 1))
         \<and> (2 < length (zfill2 (nat_of_digits patch + 1))
              \<longrightarrow> hd (zfill2 (nat_of_digits patch + 1)) \<noteq> CHR ''0'')"
  using increment_version_eq[OF assms(1-4)] assms(5)
  by (simp add: zfill2_digits nat_of_digits_zfill2 length_zfill2 hd_zfill2)

lemma digits_simps:
  "digits [] = False" "digits (c # cs) = (is_digit c \<and> list_all is_digit cs)"
  by (auto simp: digits_def)

lemma is_digit_simps:
  "is_digit (CHR ''0'')" "is_digit (CHR ''1'')" "is_digit (CHR ''2'')" "is_digit (CHR ''3'')"
  "is_digit (CHR ''4'')" "is_digit (CHR ''5'')" "is_digit (CHR ''6'')" "is_digit (CHR ''7'')"
  "is_digit (CHR ''8'')" "is_digit (CHR ''9'')"
  by (simp_all add: is_digit_def)

lemma not_digit_hyphen: "\<not> is_digit (CHR ''-'')"
  by (simp add: is_digit_def)

lemma zfill2_examples:
  "zfill2 (Suc (nat_of_digits ''3'')) = ''04''"
  "zfill2 (Suc (nat_of_digits ''27'')) = ''28''"
  "zfill2 (Suc (nat_of_digits ''9'')) = ''10''"
  "zfill2 (Suc (nat_of_digits ''99'')) = ''100''"
  "zfill2 (Suc (nat_of_digits ''7'')) = ''08''"
  by code_simp+

lemma patch_fits_examples:
  "patch_fits ''3''" "patch_fits ''27''" "patch_fits ''9''" "patch_fits ''99''"
  "patch_fits ''7''" "patch_fits ''1''" "patch_fits ''5''" "patch_fits ''10''"
  by code_simp+

theorem increment_version_patch_witness:
  "increment_version ''1.1.27'' = Inr ''1.1.28''
   \<and> increment_version ''1.1.9'' = Inr ''1.1.10''
   \<and> increment_version ''2.0.99'' = Inr ''2.0.100''
   \<and> increment_version ''01.2.7'' = Inr ''01.2.08''
   \<and> increment_version ''1.2.3-rc1'' = Inr ''1.2.04''"
  using increment_version_patch[of "''1''" "''2''" "''3''" "''-rc1''"]
        increment_version_patch[of "''1''" "''1''" "''27''" "''''"]
        increment_version_patch[of "''1''" "''1''" "''9''" "''''"]
        increment_version_patch[of "''2''" "''0''" "''99''" "''''"]
        increment_version_patch[of "''01''" "''2''" "''7''" "''''"]
  by (simp add: digits_simps is_digit_simps no_digit_next_def not_digit_hyphen zfill2_examples
        patch_fits_examples)

text \<open>
  The claim as it was stated fails at a patch group of 4301 digits, where \<open>int(patch)\<close>
  raises, and at a patch group of 4300 nines, where the formatting of its successor raises.
\<close>

theorem increment_version_patch_counterexample:
  "digits (replicate 4301 (CHR ''1''))
   \<and> increment_version (''1.1.'' @ replicate 4301 (CHR ''1'')) = Inl ValueError
   \<and> digits (replicate 4300 (CHR ''9''))
   \<and> increment_version (''1.1.'' @ replicate 4300 (CHR ''9'')) = Inl ValueError"
proof -
  have d1: "digits ''1''" by (simp add: digits_simps is_digit_simps)
  have n: "no_digit_next []" by (simp add: no_digit_next_def)
  have da: "digits (replicate 4301 (CHR ''1''))"
    by (rule digits_replicate) (simp_all add: is_digit_simps)
  have db: "digits (replicate 4300 (CHR ''9''))"
    by (rule digits_replicate) (simp_all add: is_digit_simps)
  have fa: "\<not> patch_fits (replicate 4301 (CHR ''1''))"
    by (rule patch_fits_too_long) (simp add: int_max_str_digits_def)
  have fb: "\<not> patch_fits (replicate 4300 (CHR ''9''))"
    by (rule patch_fits_nines[unfolded int_max_str_digits_def])
  from increment_version_eq[OF d1 d1 da n] fa
  have a: "increment_version (''1.1.'' @ replicate 4301 (CHR ''1'')) = Inl ValueError" by simp
  from increment_version_eq[OF d1 d1 db n] fb
  have b: "increment_version (''1.1.'' @ replicate 4300 (CHR ''9'')) = Inl ValueError" by simp
  from da a db b show ?thesis by blast
qed

text \<open>
  Claim C3. An input that does not begin with three dot-separated digit groups (the pattern
  does not match it) is returned unchanged; the function has no failing path there.
\<close>

theorem increment_version_unparseable:
  "\<not> has_version_prefix s \<Longrightarrow> increment_version s = Inr s"
  by (simp add: increment_version_def re_match_version_None)

lemma has_version_prefix_hd: "has_version_prefix s \<Longrightarrow> s \<noteq> [] \<and> is_digit (hd s)"
  by (auto simp: has_version_prefix_def digits_def neq_Nil_conv)

theorem increment_version_unparseable_witness:
  "\<not> has_version_prefix ''abc'' \<and> increment_version ''abc'' = Inr ''abc''"
proof -
  have "\<not> has_version_prefix ''abc''"
    using has_version_prefix_hd[of "''abc''"] by (auto simp: is_digit_def)
  with increment_version_unparseable[of "''abc''"] show ?thesis by simp
qed

section \<open>The asset pattern and the substitution\<close>

lemma in_class_name_class: "in_class name_class c = is_name_char c"
  by (auto simp: in_class_def name_class_def is_name_char_def)

lemma ms_lang: "m \<in> set (ms r st) \<Longrightarrow> \<exists>w \<in> lang r. snd st = w @ snd m"
proof (induction r st arbitrary: m rule: ms.induct)
  case (1 w st)
  then show ?case
    by (auto split: if_splits) (metis append_take_drop_id)
next
  case (2 cs st)
  then show ?case by (auto split: list.splits if_splits)
next
  case (3 a b st)
  from "3.prems" obtain m' where m': "m' \<in> set (ms a st)" and m: "m \<in> set (ms b m')"
    by auto
  from "3.IH"(1)[OF m'] obtain u where u: "u \<in> lang a" "snd st = u @ snd m'" by blast
  from "3.IH"(2)[OF m' m] obtain v where v: "v \<in> lang b" "snd m' = v @ snd m" by blast
  from u v show ?case by auto
next
  case (4 a b st)
  from "4.prems" have "m \<in> set (ms a st) \<or> m \<in> set (ms b st)" by simp
  then show ?case
    using "4.IH"(1)[of m] "4.IH"(2)[of m] by auto
next
  case (5 a st)
  from "5.prems" obtain st' where st': "st' \<in> set (ms a st)"
    and m: "m = st' \<or> (length (snd st') < length (snd st) \<and> m \<in> set (ms (Plus a) st'))"
    by (subst (asm) ms.simps(5)) (auto split: if_splits)
  from "5.IH"(1)[OF st'] obtain u where u: "u \<in> lang a" "snd st = u @ snd st'" by blast
  from m show ?case
  proof
    assume "m = st'"
    with u have "concat [u] \<in> lang (Plus a)" "snd st = concat [u] @ snd m"
      by (auto intro!: exI[of _ "[u]"])
    then show ?thesis by blast
  next
    assume a: "length (snd st') < length (snd st) \<and> m \<in> set (ms (Plus a) st')"
    from "5.IH"(2)[OF st' _ ] a obtain v where v: "v \<in> lang (Plus a)" "snd st' = v @ snd m"
      by blast
    from v(1) obtain ws where ws: "v = concat ws" "ws \<noteq> []" "set ws \<subseteq> lang a" by auto
    with u have "concat (u # ws) \<in> lang (Plus a)"
      by (auto intro!: exI[of _ "u # ws"])
    moreover from u v ws have "snd st = concat (u # ws) @ snd m" by simp
    ultimately show ?thesis by blast
  qed
next
  case (6 n a st)
  from "6.prems" obtain m' where "m' \<in> set (ms a st)" "snd m = snd m'" by auto
  with "6.IH"[of m'] show ?case by simp
qed

lemma lang_Plus_Cls:
  assumes "w \<in> lang (Plus (Cls cs))"
  shows "w \<noteq> [] \<and> list_all (in_class cs) w"
proof -
  from assms obtain ws where ws: "w = concat ws" "ws \<noteq> []" "set ws \<subseteq> {[c] |c. in_class cs c}"
    by auto
  from ws(3) have "list_all (in_class cs) (concat ws)"
    by (induction ws) auto
  moreover from ws(2,3) have "concat ws \<noteq> []"
    by (cases ws) auto
  ultimately show ?thesis using ws(1) by simp
qed

lemma lang_digits_re: "w \<in> lang (digits_re n) \<Longrightarrow> digits w"
  using lang_Plus_Cls[of w "[Digit]"] by (simp add: digits_re_def digits_def in_class_Digit_eq)

lemma lang_cdn_re: "w \<in> lang cdn_re \<Longrightarrow> qualifies w"
proof -
  assume "w \<in> lang cdn_re"
  then obtain stem e major minor patch where
    w: "w = (CDN_URL @ stem @ ''.'' @ e) @ ''?v='' @ major @ ''.'' @ minor @ ''.'' @ patch"
    and stem: "stem \<in> lang (Plus (Cls name_class))" and e: "e = ''js'' \<or> e = ''css''"
    and d: "major \<in> lang (digits_re 2)" "minor \<in> lang (digits_re 3)" "patch \<in> lang (digits_re 4)"
    unfolding cdn_re_def ext_re_def lang.simps by blast
  from lang_Plus_Cls[OF stem] have "name_stem stem"
    by (simp add: name_stem_def in_class_name_class[abs_def])
  moreover from e have "is_ext (''.'' @ e)" by (auto simp: is_ext_def)
  ultimately show ?thesis
    unfolding qualifies_def using w d[THEN lang_digits_re]
    by (intro exI[of _ stem] exI[of _ "''.'' @ e"] exI[of _ major] exI[of _ minor] exI[of _ patch]) simp
qed

lemma cdn_match_qualifies:
  assumes "m \<in> set (ms cdn_re (g, s))"
  shows "\<exists>w. qualifies w \<and> s = w @ snd m"
  using ms_lang[OF assms] lang_cdn_re by auto

lemma ms_Plus_Cat_Nil: "ms (Cat (Plus (Cls cs)) b) (g, []) = []"
  by (simp add: ms_Plus_Cls_Nil)

lemma ms_Plus_Cat_Cons:
  "ms (Cat (Plus (Cls cs)) b) (g, c # r) =
     (if in_class cs c then ms (Cat (Plus (Cls cs)) b) (g, r) @ ms b (g, r) else [])"
  by (simp add: ms_Plus_Cls_Cons)

lemma name_class_chars:
  "in_class name_class (CHR ''.'')" "in_class name_class (CHR ''j'')"
  "in_class name_class (CHR ''s'')" "in_class name_class (CHR ''c'')"
  "\<not> in_class name_class (CHR ''?'')"
  by (simp_all add: in_class_name_class is_name_char_def is_word_def)

lemma ms_ext_re_not_dot: "c \<noteq> CHR ''.'' \<Longrightarrow> ms ext_re (g, c # u) = []"
  by (simp add: ext_re_def)

lemma ms_ext_re_ext:
  assumes "is_ext ext"
  shows "ms ext_re (g, ext @ ''?v='' @ t) = [(g, ''?v='' @ t)]"
  using assms by (auto simp: is_ext_def ext_re_def)

lemma ext_then_query:
  assumes "is_ext ext"
  shows "ms (Cat (Plus (Cls name_class)) ext_re) (g, ext @ ''?v='' @ t) = []"
  using assms
  by (auto simp add: is_ext_def ms_Plus_Cat_Cons ms_Plus_Cat_Nil name_class_chars
      ms_ext_re_not_dot simp del: ms.simps)

lemma name_then_ext:
  assumes "name_stem stem" "is_ext ext"
  shows "\<exists>xs. ms (Cat (Plus (Cls name_class)) ext_re) (g, stem @ ext @ ''?v='' @ t)
           = (g, ''?v='' @ t) # xs"
  using assms(1) unfolding name_stem_def
proof (induction stem)
  case Nil
  then show ?case by simp
next
  case (Cons c stem)
  then have c: "in_class name_class c" by (simp add: in_class_name_class)
  show ?case
  proof (cases "stem = []")
    case True
    with c ext_then_query[OF assms(2), of g t] ms_ext_re_ext[OF assms(2), of g t] show ?thesis
      by (simp add: ms_Plus_Cat_Cons del: ms.simps)
  next
    case False
    with Cons obtain xs where
      "ms (Cat (Plus (Cls name_class)) ext_re) (g, stem @ ext @ ''?v='' @ t) = (g, ''?v='' @ t) # xs"
      by auto
    with c show ?thesis
      by (simp add: ms_Plus_Cat_Cons del: ms.simps)
  qed
qed

lemma length_CDN_URL: "length CDN_URL = 52"
  by (simp add: CDN_URL_def)

lemma ms_versions:
  assumes "digits major" "digits minor" "digits patch" "no_digit_next rest"
  shows "\<exists>ms'. ms (Cat (digits_re 2) (Cat (Str ''.'') (Cat (digits_re 3) (Cat (Str ''.'') (digits_re 4)))))
                 (g, major @ ''.'' @ minor @ ''.'' @ patch @ rest)
           = (g(2 \<mapsto> major, 3 \<mapsto> minor, 4 \<mapsto> patch), rest) # ms'"
proof -
  have nd: "\<And>u. CHR ''.'' # u = [] \<or> \<not> is_digit (hd (CHR ''.'' # u))"
    by (simp add: is_digit_def)
  have 1: "ms (Cat (digits_re 2) (Cat (Str ''.'') (Cat (digits_re 3) (Cat (Str ''.'') (digits_re 4)))))
                 (g, major @ ''.'' @ minor @ ''.'' @ patch @ rest)
         = ms (Cat (digits_re 3) (Cat (Str ''.'') (digits_re 4))) (g(2 \<mapsto> major), minor @ ''.'' @ patch @ rest)"
    using assms(1) nd
    by (simp add: digits_def ms_digits_then no_digit_start_dot ms_Str_Cat del: ms.simps)
  have 2: "\<dots> = ms (digits_re 4) (g(2 \<mapsto> major, 3 \<mapsto> minor), patch @ rest)"
    using assms(2) nd
    by (simp add: digits_def ms_digits_then no_digit_start_dot ms_Str_Cat del: ms.simps)
  from ms_digits_last[of patch rest 4 "g(2 \<mapsto> major, 3 \<mapsto> minor)"] assms(3,4)
  show ?thesis unfolding 1 2 by (auto simp: digits_def dest: no_digit_nextD)
qed

lemma ms_cdn_re:
  assumes "name_stem stem" "is_ext ext" "digits major" "digits minor" "digits patch"
    "no_digit_next rest"
  shows "\<exists>ms'. ms cdn_re (g, CDN_URL @ stem @ ext @ ''?v='' @ major @ ''.'' @ minor @ ''.'' @ patch @ rest)
           = (g(1 \<mapsto> CDN_URL @ stem @ ext, 2 \<mapsto> major, 3 \<mapsto> minor, 4 \<mapsto> patch), rest) # ms'"
proof -
  let ?t = "major @ ''.'' @ minor @ ''.'' @ patch @ rest"
  let ?s = "CDN_URL @ stem @ ext @ ''?v='' @ ?t"
  let ?V = "Cat (digits_re 2) (Cat (Str ''.'') (Cat (digits_re 3) (Cat (Str ''.'') (digits_re 4))))"
  from name_then_ext[OF assms(1,2), of g ?t] obtain xs where
    xs: "ms (Cat (Plus (Cls name_class)) ext_re) (g, stem @ ext @ ''?v='' @ ?t) = (g, ''?v='' @ ?t) # xs"
    by blast
  have N: "ms (Cat (Str CDN_URL) (Cat (Plus (Cls name_class)) ext_re)) (g, ?s) = (g, ''?v='' @ ?t) # xs"
    unfolding ms_Str_Cat using xs by simp
  have tk: "take (length ?s - length (''?v='' @ ?t)) ?s = CDN_URL @ stem @ ext"
    by simp
  obtain ys where G: "ms (Grp 1 (Cat (Str CDN_URL) (Cat (Plus (Cls name_class)) ext_re))) (g, ?s)
        = (g(1 \<mapsto> CDN_URL @ stem @ ext), ''?v='' @ ?t) # ys"
    unfolding ms.simps(6) N using tk by simp
  from ms_versions[OF assms(3-6), of "g(1 \<mapsto> CDN_URL @ stem @ ext)"] obtain zs where
    zs: "ms ?V (g(1 \<mapsto> CDN_URL @ stem @ ext), ?t)
          = (g(1 \<mapsto> CDN_URL @ stem @ ext, 2 \<mapsto> major, 3 \<mapsto> minor, 4 \<mapsto> patch), rest) # zs"
    by blast
  have Z: "ms (Cat (Str ''?v='') ?V) (g(1 \<mapsto> CDN_URL @ stem @ ext), ''?v='' @ ?t)
          = (g(1 \<mapsto> CDN_URL @ stem @ ext, 2 \<mapsto> major, 3 \<mapsto> minor, 4 \<mapsto> patch), rest) # zs"
    unfolding ms_Str_Cat using zs by simp
  have "ms cdn_re (g, ?s) = concat (map (ms (Cat (Str ''?v='') ?V))
          (ms (Grp 1 (Cat (Str CDN_URL) (Cat (Plus (Cls name_class)) ext_re))) (g, ?s)))"
    unfolding cdn_re_def ms.simps(3)[of "Grp 1 _"] ..
  then show ?thesis
    unfolding G using Z by simp
qed

lemma re_match_cdn:
  assumes "name_stem stem" "is_ext ext" "digits major" "digits minor" "digits patch"
    "no_digit_next rest"
  shows "re_match cdn_re (CDN_URL @ stem @ ext @ ''?v='' @ major @ ''.'' @ minor @ ''.'' @ patch @ rest)
           = Some ([1 \<mapsto> CDN_URL @ stem @ ext, 2 \<mapsto> major, 3 \<mapsto> minor, 4 \<mapsto> patch], rest)"
  using ms_cdn_re[OF assms, of Map.empty] by (auto simp: re_match_def)

subsection \<open>The match of the pattern, characterised\<close>

lemma digits_append_takeWhile: "digits ds \<Longrightarrow> digits (ds @ takeWhile is_digit r)"
  by (auto simp: digits_def list_all_iff dest: set_takeWhileD)

lemma starts_occurrence_maximal:
  assumes "starts_occurrence s"
  shows "\<exists>stem ext major minor patch rest.
           seg_ok (Ref stem ext major minor patch) \<and> no_digit_next rest
           \<and> s = seg_src (Ref stem ext major minor patch) @ rest"
proof -
  from assms obtain stem ext major minor patch r where
    s: "s = (CDN_URL @ stem @ ext @ ''?v='' @ major @ ''.'' @ minor @ ''.'' @ patch) @ r"
    and ok: "name_stem stem" "is_ext ext" "digits major" "digits minor" "digits patch"
    unfolding starts_occurrence_def qualifies_def by blast
  let ?p = "patch @ takeWhile is_digit r" and ?rest = "dropWhile is_digit r"
  have "s = seg_src (Ref stem ext major minor ?p) @ ?rest"
    using s by simp
  moreover have "seg_ok (Ref stem ext major minor ?p)"
    using ok by (simp add: digits_append_takeWhile)
  ultimately show ?thesis
    using no_digit_next_dropWhile by blast
qed

lemma re_match_cdn_seg:
  assumes "seg_ok (Ref stem ext major minor patch)" "no_digit_next rest"
  shows "re_match cdn_re (seg_src (Ref stem ext major minor patch) @ rest)
           = Some ([1 \<mapsto> CDN_URL @ stem @ ext, 2 \<mapsto> major, 3 \<mapsto> minor, 4 \<mapsto> patch], rest)"
  using re_match_cdn[of stem ext major minor patch rest] assms by simp

lemma re_match_cdn_None_iff: "re_match cdn_re s = None \<longleftrightarrow> \<not> starts_occurrence s"
proof
  assume n: "re_match cdn_re s = None"
  show "\<not> starts_occurrence s"
  proof
    assume "starts_occurrence s"
    from starts_occurrence_maximal[OF this] re_match_cdn_seg n show False by fastforce
  qed
next
  assume n: "\<not> starts_occurrence s"
  show "re_match cdn_re s = None"
  proof (rule ccontr)
    assume "re_match cdn_re s \<noteq> None"
    then obtain m ms' where "ms cdn_re (Map.empty, s) = m # ms'"
      by (auto simp: re_match_def split: list.splits)
    then have "m \<in> set (ms cdn_re (Map.empty, s))" by simp
    from cdn_match_qualifies[OF this] n show False
      by (auto simp: starts_occurrence_def)
  qed
qed

subsection \<open>One step of the substitution\<close>

lemma split_on_no_sep: "d \<notin> set ys \<Longrightarrow> split_on d ys = [ys]"
  by (induction ys) auto

lemma split_on_not_Nil: "split_on d s \<noteq> []"
  by (induction s) (auto split: list.splits)

lemma length_split_on: "length (split_on d s) = Suc (length (filter (\<lambda>c. c = d) s))"
  by (induction s) (auto split: list.splits)

lemma last_split_on_Cons:
  "d \<in> set s \<Longrightarrow> last (split_on d (c # s)) = last (split_on d s)"
proof -
  assume "d \<in> set s"
  then have "filter (\<lambda>c. c = d) s \<noteq> []"
    by (auto simp: filter_empty_conv)
  then have "2 \<le> length (split_on d s)"
    by (cases "filter (\<lambda>c. c = d) s") (simp_all add: length_split_on)
  then obtain p q ps where "split_on d s = p # q # ps"
    by (cases "split_on d s"; cases "tl (split_on d s)") auto
  then show ?thesis by simp
qed

lemma last_split_on_append:
  "last (split_on d (xs @ d # ys)) = last (split_on d ys)"
proof (induction xs)
  case Nil
  show ?case by (simp add: split_on_not_Nil)
next
  case (Cons x xs)
  have "last (split_on d (x # (xs @ d # ys))) = last (split_on d (xs @ d # ys))"
    by (rule last_split_on_Cons) simp
  with Cons show ?case by simp
qed

lemma CDN_URL_snoc: "CDN_URL = ''https://pub-85443b585f1e4411ab5cc976c4fb08ca.r2.dev'' @ ''/''"
  by (simp add: CDN_URL_def)

lemma not_name_char_slash: "\<not> is_name_char (CHR ''/'')"
  by (simp add: is_name_char_def is_word_def)

lemma is_name_char_not_slash: "is_name_char c \<Longrightarrow> c \<noteq> CHR ''/''"
  using not_name_char_slash by blast

lemma filename_of_base:
  assumes "name_stem stem" "is_ext ext"
  shows "last (split_on (CHR ''/'') (CDN_URL @ stem @ ext)) = stem @ ext"
proof -
  let ?pre = "''https://pub-85443b585f1e4411ab5cc976c4fb08ca.r2.dev''"
  have "CHR ''/'' \<notin> set stem"
    using assms(1) not_name_char_slash by (auto simp: name_stem_def list_all_iff)
  moreover have "CHR ''/'' \<notin> set ext"
    using assms(2) by (auto simp: is_ext_def)
  ultimately have no: "CHR ''/'' \<notin> set (stem @ ext)" by simp
  have "CDN_URL @ stem @ ext = ?pre @ CHR ''/'' # (stem @ ext)"
    by (simp add: CDN_URL_def)
  then have "last (split_on (CHR ''/'') (CDN_URL @ stem @ ext))
               = last (split_on (CHR ''/'') (stem @ ext))"
    by (simp only: last_split_on_append)
  also have "\<dots> = stem @ ext"
    by (simp only: split_on_no_sep[OF no] last.simps refl if_True)
  finally show ?thesis .
qed

lemma increment_version_seg:
  assumes "seg_ok (Ref stem ext major minor patch)"
  shows "increment_version (major @ ''.'' @ minor @ ''.'' @ patch)
           = (if patch_fits patch
              then Inr (major @ ''.'' @ minor @ ''.'' @ zfill2 (nat_of_digits patch + 1))
              else Inl ValueError)"
  using increment_version_eq[of major minor patch "[]"] assms
  by (simp add: no_digit_next_def)

lemma replace_version_seg:
  assumes "seg_ok (Ref stem ext major minor patch)"
  shows "replace_version [1 \<mapsto> CDN_URL @ stem @ ext, 2 \<mapsto> major, 3 \<mapsto> minor, 4 \<mapsto> patch] a
           = (if seg_fits (Ref stem ext major minor patch)
              then Inr (seg_out (Ref stem ext major minor patch),
                        seg_step a (Ref stem ext major minor patch))
              else Inl ValueError)"
  using assms filename_of_base[of stem ext] increment_version_seg[OF assms]
  by (simp add: replace_version_def group_def Let_def)

lemma re_sub_Nil: "re_sub cdn_re f [] a = Inr ([], a)"
proof -
  have "\<not> starts_occurrence []"
    by (auto simp: starts_occurrence_def qualifies_def CDN_URL_def)
  then show ?thesis
    by (subst re_sub.simps) (simp add: re_match_cdn_None_iff[THEN iffD2])
qed

lemma re_sub_Plain:
  assumes "\<not> starts_occurrence (c # cs)"
  shows "re_sub cdn_re f (c # cs) a
           = (case re_sub cdn_re f cs a of
                Inl e \<Rightarrow> Inl e
              | Inr ra \<Rightarrow> Inr (c # fst ra, snd ra))"
  using assms by (subst re_sub.simps) (simp add: re_match_cdn_None_iff[THEN iffD2])

lemma re_sub_Ref:
  assumes "seg_ok (Ref stem ext major minor patch)" "no_digit_next rest"
  shows "re_sub cdn_re replace_version (seg_src (Ref stem ext major minor patch) @ rest) a
           = (if seg_fits (Ref stem ext major minor patch) then
                (case re_sub cdn_re replace_version rest
                        (seg_step a (Ref stem ext major minor patch)) of
                   Inl e \<Rightarrow> Inl e
                 | Inr ra \<Rightarrow> Inr (seg_out (Ref stem ext major minor patch) @ fst ra, snd ra))
              else Inl ValueError)"
proof -
  let ?R = "Ref stem ext major minor patch"
  let ?s = "seg_src ?R @ rest"
  let ?g = "[1 \<mapsto> CDN_URL @ stem @ ext, 2 \<mapsto> major, 3 \<mapsto> minor, 4 \<mapsto> patch]"
  have m: "re_match cdn_re ?s = Some (?g, rest)"
    by (rule re_match_cdn_seg[OF assms])
  have len: "length rest < length ?s"
    by (simp add: CDN_URL_def)
  have "re_sub cdn_re replace_version ?s a =
          (case replace_version ?g a of
             Inl e \<Rightarrow> Inl e
           | Inr oa \<Rightarrow>
               (case re_sub cdn_re replace_version rest (snd oa) of
                  Inl e \<Rightarrow> Inl e
                | Inr ra \<Rightarrow> Inr (fst oa @ fst ra, snd ra)))"
    by (subst re_sub.simps) (simp only: m option.case fst_conv snd_conv len if_True)
  then show ?thesis
    by (cases "seg_fits ?R")
      (simp_all only: replace_version_seg[OF assms(1)] if_True if_False sum.case fst_conv snd_conv)
qed

lemma re_sub_scan:
  assumes "scan s segs"
  shows "re_sub cdn_re replace_version s a
           = (if list_all seg_fits segs
              then Inr (concat (map seg_out segs), foldl seg_step a segs)
              else Inl ValueError)"
  using assms
proof (induction arbitrary: a rule: scan.induct)
  case scan_Nil
  show ?case by (simp add: re_sub_Nil)
next
  case (scan_Plain c cs segs)
  then show ?case by (simp add: re_sub_Plain)
next
  case (scan_Ref stem ext major minor patch rest segs)
  then show ?case
    by (simp add: re_sub_Ref del: seg_src.simps seg_out.simps seg_step.simps seg_ok.simps
          seg_fits.simps)
qed

lemma scan_total: "\<exists>segs. scan s segs"
proof (induction s rule: length_induct)
  case (1 s)
  show ?case
  proof (cases "starts_occurrence s")
    case True
    from starts_occurrence_maximal[OF this] obtain stem ext major minor patch rest where
      ok: "seg_ok (Ref stem ext major minor patch)" "no_digit_next rest"
      and s: "s = seg_src (Ref stem ext major minor patch) @ rest" by blast
    from s have "length rest < length s" by (simp add: CDN_URL_def)
    with 1 obtain segs where "scan rest segs" by blast
    from scan.scan_Ref[OF ok this] s show ?thesis by blast
  next
    case False
    show ?thesis
    proof (cases s)
      case Nil
      then show ?thesis using scan.scan_Nil by blast
    next
      case (Cons c cs)
      with 1 obtain segs where "scan cs segs" by auto
      with False Cons scan.scan_Plain show ?thesis by blast
    qed
  qed
qed

lemma scan_src: "scan s segs \<Longrightarrow> s = concat (map seg_src segs)"
  by (induction rule: scan.induct) simp_all

lemma scan_ok: "scan s segs \<Longrightarrow> list_all seg_ok segs"
  by (induction rule: scan.induct) simp_all

subsection \<open>Occurrences do not overlap\<close>

lemma not_name_char_colon: "\<not> is_name_char (CHR '':'')"
  by (simp add: is_name_char_def is_word_def)

lemma not_digit_colon: "\<not> is_digit (CHR '':'')"
  by (simp add: is_digit_def)

lemma digits_no_colon: "digits ds \<Longrightarrow> CHR '':'' \<notin> set ds"
  using not_digit_colon by (auto simp: digits_def list_all_iff)

lemma CDN_URL_colon: "CDN_URL = ''https'' @ CHR '':'' # ''//pub-85443b585f1e4411ab5cc976c4fb08ca.r2.dev/''"
  by (simp add: CDN_URL_def)

lemma https_not_digit: "c \<in> set ''https'' \<Longrightarrow> \<not> is_digit c"
  by (auto simp: is_digit_def)

lemma qualifies_shape:
  assumes "qualifies w"
  shows "\<exists>body. w = ''https'' @ CHR '':'' # body \<and> CHR '':'' \<notin> set body \<and> is_digit (last w)"
proof -
  from assms obtain stem ext major minor patch where
    w: "w = CDN_URL @ stem @ ext @ ''?v='' @ major @ ''.'' @ minor @ ''.'' @ patch"
    and ok: "name_stem stem" "is_ext ext" "digits major" "digits minor" "digits patch"
    unfolding qualifies_def by blast
  let ?body = "''//pub-85443b585f1e4411ab5cc976c4fb08ca.r2.dev/'' @ stem @ ext @ ''?v='' @ major @ ''.'' @ minor @ ''.'' @ patch"
  have "CHR '':'' \<notin> set stem"
    using ok(1) not_name_char_colon by (auto simp: name_stem_def list_all_iff)
  moreover have "CHR '':'' \<notin> set ext"
    using ok(2) by (auto simp: is_ext_def)
  ultimately have "CHR '':'' \<notin> set ?body"
    using ok(3-5)[THEN digits_no_colon] by simp
  moreover have "w = ''https'' @ CHR '':'' # ?body"
    unfolding w CDN_URL_colon by simp
  moreover have "is_digit (last w)"
    using ok(5) unfolding w by (auto simp: digits_def list_all_iff)
  ultimately show ?thesis by blast
qed

lemma append_eq_longer:
  assumes "w @ r = p @ x" "length p < length w"
  shows "\<exists>us. w = p @ us \<and> us @ r = x \<and> us \<noteq> []"
proof -
  from assms(1) have "take (length p) (w @ r) = p" by simp
  with assms(2) have p: "take (length p) w = p" by simp
  then have w: "w = p @ drop (length p) w"
    by (metis append_take_drop_id)
  from assms(1) have "drop (length p) (w @ r) = x" by simp
  with assms(2) have "drop (length p) w @ r = x" by simp
  moreover from assms(2) have "drop (length p) w \<noteq> []" by simp
  ultimately show ?thesis using w by blast
qed

lemma append_eq_shorter:
  assumes "w @ r = p @ x" "length w \<le> length p"
  shows "\<exists>us. p = w @ us \<and> r = us @ x"
proof -
  from assms(1) have "take (length w) (p @ x) = w" by (metis append_eq_conv_conj)
  with assms(2) have "take (length w) p = w" by simp
  then have p: "p = w @ drop (length w) p"
    by (metis append_take_drop_id)
  from assms(1) have "drop (length w) (p @ x) = r" by (metis append_eq_conv_conj)
  with assms(2) have "r = drop (length w) p @ x" by simp
  with p show ?thesis by blast
qed

lemma occurrence_before_next:
  assumes w: "qualifies w" and eq: "w @ r = p @ CDN_URL @ t" and p: "p \<noteq> []"
  shows "length w \<le> length p"
proof (rule ccontr)
  assume "\<not> length w \<le> length p"
  then have lt: "length p < length w" by simp
  from qualifies_shape[OF w] obtain body where
    body: "w = ''https'' @ CHR '':'' # body" "CHR '':'' \<notin> set body" and dg: "is_digit (last w)"
    by blast
  from append_eq_longer[OF eq lt] obtain us where
    us: "w = p @ us" "us @ r = CDN_URL @ t" "us \<noteq> []"
    by blast
  from us(2) have "us @ r = ''https'' @ (CHR '':'' # ''//pub-85443b585f1e4411ab5cc976c4fb08ca.r2.dev/'' @ t)"
    unfolding CDN_URL_colon by simp
  then have "(\<exists>vs. us @ vs = ''https'')
      \<or> (\<exists>vs. us = ''https'' @ vs
            \<and> vs @ r = CHR '':'' # ''//pub-85443b585f1e4411ab5cc976c4fb08ca.r2.dev/'' @ t)"
    unfolding append_eq_append_conv2[of us r] by blast
  then consider vs where "us @ vs = ''https''"
    | vs where "us = ''https'' @ vs" "vs @ r = CHR '':'' # ''//pub-85443b585f1e4411ab5cc976c4fb08ca.r2.dev/'' @ t"
    by blast
  then show False
  proof cases
    case 1
    then have "set us \<subseteq> set ''https''"
      by (metis set_append Un_upper1)
    with us(3) have "last us \<in> set ''https''"
      using last_in_set by blast
    moreover have "last w = last us" using us(1,3) by simp
    ultimately show False using dg https_not_digit by metis
  next
    case 2
    show False
    proof (cases vs)
      case Nil
      with 2 us(1) have "last w = CHR ''s''" by simp
      with dg show False by (simp add: is_digit_def)
    next
      case (Cons v vs')
      with 2(2) have v: "v = CHR '':''" by simp
      from us(1) 2(1) Cons v have "w = (p @ ''https'') @ CHR '':'' # vs'" by simp
      with body(1) have "''https'' @ CHR '':'' # body = (p @ ''https'') @ CHR '':'' # vs'" by simp
      then have "''https'' = p @ ''https''"
        using body(2) by (subst (asm) append_Cons_eq_iff) auto
      with p show False by simp
    qed
  qed
qed

lemma starts_occurrence_local:
  assumes "starts_occurrence (p @ CDN_URL @ t)" "p \<noteq> []"
  shows "starts_occurrence p"
proof -
  from assms(1) obtain w r where w: "p @ CDN_URL @ t = w @ r" "qualifies w"
    unfolding starts_occurrence_def by blast
  from occurrence_before_next[OF w(2) w(1)[symmetric] assms(2)] have "length w \<le> length p" .
  with append_eq_shorter[OF w(1)[symmetric]] obtain us where "p = w @ us"
    by blast
  with w(2) show ?thesis unfolding starts_occurrence_def by blast
qed

lemma starts_occurrence_append: "starts_occurrence p \<Longrightarrow> starts_occurrence (p @ x)"
  unfolding starts_occurrence_def by (metis append.assoc)

lemma starts_occurrence_CDN: "starts_occurrence s \<Longrightarrow> \<exists>t. s = CDN_URL @ t"
  unfolding starts_occurrence_def qualifies_def by auto

lemma no_digit_next_CDN: "no_digit_next (CDN_URL @ t)"
  by (simp add: CDN_URL_def no_digit_next_def is_digit_def)

lemma no_digit_next_append:
  "no_digit_next r \<Longrightarrow> no_digit_next x \<Longrightarrow> no_digit_next (r @ x)"
  by (cases r) (simp_all add: no_digit_next_def)

lemma at_boundary_no_digit: "at_boundary x \<Longrightarrow> no_digit_next x"
  unfolding at_boundary_def using no_digit_next_CDN by (auto simp: no_digit_next_def)

lemma scan_append:
  assumes "scan pre segs1" "scan x segs2" "at_boundary x"
  shows "scan (pre @ x) (segs1 @ segs2)"
  using assms(1)
proof (induction rule: scan.induct)
  case scan_Nil
  show ?case using assms(2) by simp
next
  case (scan_Plain c cs segs)
  have "\<not> starts_occurrence ((c # cs) @ x)"
  proof (cases "x = []")
    case True
    with scan_Plain(1) show ?thesis by simp
  next
    case False
    with assms(3) obtain t where "x = CDN_URL @ t" by (auto simp: at_boundary_def)
    with scan_Plain(1) starts_occurrence_local[of "c # cs" t] show ?thesis by auto
  qed
  with scan_Plain(3) show ?case
    using scan.scan_Plain by simp
next
  case (scan_Ref stem ext major minor patch rest segs)
  have "no_digit_next (rest @ x)"
    using scan_Ref(2) at_boundary_no_digit[OF assms(3)] by (rule no_digit_next_append)
  from scan.scan_Ref[OF scan_Ref(1) this scan_Ref(4)] show ?case
    by (simp del: seg_src.simps seg_ok.simps)
qed

subsection \<open>The result of a run, read off the scan\<close>

lemma foldl_seg_step:
  "foldl seg_step (n, m) segs = (n + length (filter is_ref segs), foldl seg_change m segs)"
proof (induction segs arbitrary: n m)
  case Nil
  show ?case by simp
next
  case (Cons x segs)
  show ?case
  proof (cases x)
    case (Plain c)
    then show ?thesis by (simp add: Cons.IH)
  next
    case (Ref stem ext major minor patch)
    have "seg_step (n, m) x = (Suc n, seg_change m x)"
      unfolding Ref by simp
    then show ?thesis
      unfolding foldl_Cons by (simp only: Cons.IH) (simp add: Ref fun_upd_def)
  qed
qed

lemma update_scan:
  assumes "scan s segs"
  shows "update_cdn_versions s
           = (if list_all seg_fits segs
              then Inr (concat (map seg_out segs), length (filter is_ref segs), changes_of segs)
              else Inl ValueError)"
  unfolding update_cdn_versions_def re_sub_scan[OF assms] foldl_seg_step changes_of_def
  by simp

lemma update_returns:
  assumes "scan s segs" "list_all seg_fits segs"
  shows "update_cdn_versions s
           = Inr (concat (map seg_out segs), length (filter is_ref segs), changes_of segs)"
  using update_scan[OF assms(1)] assms(2) by simp

lemma update_raises:
  assumes "scan s segs" "\<not> list_all seg_fits segs"
  shows "update_cdn_versions s = Inl ValueError"
  using update_scan[OF assms(1)] assms(2) by simp

lemma update_Inr_scan:
  assumes "scan s segs" "update_cdn_versions s = Inr (u, n, ch)"
  shows "list_all seg_fits segs" "u = concat (map seg_out segs)"
    "n = length (filter is_ref segs)" "ch = changes_of segs"
  using update_scan[OF assms(1)] assms(2) by (simp_all split: if_splits)

lemma digits_imp_no_digit_next_Nil: "no_digit_next []"
  by (simp add: no_digit_next_def)

lemma seg_out_Ref:
  "seg_out (Ref stem ext major minor patch)
     = seg_src (Ref stem ext major minor (zfill2 (nat_of_digits patch + 1)))"
  by simp

lemma scan_all_Plain:
  assumes "\<forall>i<length s. \<not> starts_occurrence (drop i s)"
  shows "scan s (map Plain s)"
  using assms
proof (induction s)
  case Nil
  show ?case by (simp add: scan.scan_Nil)
next
  case (Cons c cs)
  from Cons.prems have "\<not> starts_occurrence (c # cs)" by (auto dest: spec[of _ 0])
  moreover have "\<forall>i<length cs. \<not> starts_occurrence (drop i cs)"
  proof (intro allI impI)
    fix i assume "i < length cs"
    with Cons.prems have "\<not> starts_occurrence (drop (Suc i) (c # cs))" by (auto dest: spec[of _ "Suc i"])
    then show "\<not> starts_occurrence (drop i cs)" by simp
  qed
  ultimately show ?case using Cons.IH by (simp add: scan.scan_Plain)
qed

lemma update_no_occurrence:
  assumes "\<forall>i<length content. \<not> starts_occurrence (drop i content)"
  shows "update_cdn_versions content = Inr (content, 0, Map.empty)"
proof -
  have "concat (map seg_out (map Plain content)) = content"
    by (induction content) simp_all
  moreover have "filter is_ref (map Plain content) = []"
    by (induction content) simp_all
  moreover have "foldl seg_change m (map Plain content) = m" for m
    by (induction content) simp_all
  moreover have "list_all seg_fits (map Plain content)"
    by (induction content) simp_all
  ultimately show ?thesis
    using update_scan[OF scan_all_Plain[OF assms]] by (simp add: changes_of_def)
qed

text \<open>
  Claim C7. A content in which no qualifying occurrence starts at any position is returned
  as it is, with change count 0 and an empty map of changes.
\<close>

theorem no_occurrence_unchanged:
  assumes "\<forall>i<length content. \<not> starts_occurrence (drop i content)"
  shows "update_cdn_versions content = Inr (content, 0, Map.empty)"
  using assms by (rule update_no_occurrence)

lemma starts_occurrence_hd: "starts_occurrence s \<Longrightarrow> s \<noteq> [] \<and> hd s = CHR ''h''"
  by (auto dest!: starts_occurrence_CDN simp: CDN_URL_def)

lemma no_h_no_occurrence:
  assumes "CHR ''h'' \<notin> set s"
  shows "\<forall>i<length s. \<not> starts_occurrence (drop i s)"
proof (intro allI impI notI)
  fix i assume i: "i < length s" and "starts_occurrence (drop i s)"
  from starts_occurrence_hd[OF this(2)] i have "s ! i = CHR ''h''"
    by (simp add: hd_drop_conv_nth)
  with i assms show False by (metis nth_mem)
qed

lemma no_occurrence_after_first:
  assumes "\<not> starts_occurrence (c # s)" "CHR ''h'' \<notin> set s"
  shows "\<forall>i<length (c # s). \<not> starts_occurrence (drop i (c # s))"
proof (intro allI impI)
  fix i assume "i < length (c # s)"
  show "\<not> starts_occurrence (drop i (c # s))"
  proof (cases i)
    case 0
    with assms(1) show ?thesis by simp
  next
    case (Suc j)
    with \<open>i < length (c # s)\<close> no_h_no_occurrence[OF assms(2)] show ?thesis by simp
  qed
qed

lemma update_no_h: "CHR ''h'' \<notin> set s \<Longrightarrow> update_cdn_versions s = Inr (s, 0, Map.empty)"
  by (rule update_no_occurrence[OF no_h_no_occurrence])

text \<open>A name that is only an extension is not matched: the pattern asks for at least one
  character before the extension.\<close>

lemma bare_extension_no_match: "\<not> starts_occurrence (CDN_URL @ ''.js?v=1.1.27'')"
proof -
  have "map snd (ms cdn_re (Map.empty, CDN_URL @ ''.js?v=1.1.27'')) = []"
    by code_simp
  then have "re_match cdn_re (CDN_URL @ ''.js?v=1.1.27'') = None"
    by (simp add: re_match_def)
  then show ?thesis using re_match_cdn_None_iff by blast
qed

theorem no_occurrence_unchanged_witness:
  "update_cdn_versions (CDN_URL @ ''.js?v=1.1.27'')
     = Inr (CDN_URL @ ''.js?v=1.1.27'', 0, Map.empty)"
proof -
  let ?t = "''ttps://pub-85443b585f1e4411ab5cc976c4fb08ca.r2.dev/.js?v=1.1.27''"
  have eq: "CDN_URL @ ''.js?v=1.1.27'' = CHR ''h'' # ?t"
    by (simp add: CDN_URL_def)
  have "CHR ''h'' \<notin> set ?t" by simp
  from no_occurrence_after_first[OF bare_extension_no_match[unfolded eq] this]
  have "\<forall>i<length (CDN_URL @ ''.js?v=1.1.27'').
          \<not> starts_occurrence (drop i (CDN_URL @ ''.js?v=1.1.27''))"
    unfolding eq .
  from no_occurrence_unchanged[OF this] show ?thesis .
qed

subsection \<open>Counting the occurrences\<close>

lemma qualifies_seg_src:
  "seg_ok (Ref stem ext major minor patch) \<Longrightarrow> qualifies (seg_src (Ref stem ext major minor patch))"
  unfolding qualifies_def seg_src.simps seg_ok.simps by blast

lemma finite_occurrence_positions: "finite (occurrence_positions s)"
  by (simp add: occurrence_positions_def)

lemma occurrence_positions_Plain:
  assumes "\<not> starts_occurrence (c # cs)"
  shows "occurrence_positions (c # cs) = Suc ` occurrence_positions cs"
proof (rule set_eqI)
  fix i
  show "i \<in> occurrence_positions (c # cs) \<longleftrightarrow> i \<in> Suc ` occurrence_positions cs"
  proof (cases i)
    case 0
    with assms show ?thesis by (auto simp: occurrence_positions_def)
  next
    case (Suc j)
    then show ?thesis by (auto simp: occurrence_positions_def)
  qed
qed

lemma occurrence_positions_Ref:
  assumes w: "qualifies w"
  shows "occurrence_positions (w @ rest) = insert 0 ((\<lambda>j. length w + j) ` occurrence_positions rest)"
proof -
  from qualifies_shape[OF w] have wne: "w \<noteq> []" by auto
  have so0: "starts_occurrence (w @ rest)"
    using w by (auto simp: starts_occurrence_def)
  have inside: "\<not> starts_occurrence (drop i (w @ rest))" if "0 < i" "i < length w" for i
  proof
    assume "starts_occurrence (drop i (w @ rest))"
    from starts_occurrence_CDN[OF this] obtain t where t: "drop i (w @ rest) = CDN_URL @ t" ..
    have "w @ rest = take i (w @ rest) @ drop i (w @ rest)"
      by (simp only: append_take_drop_id)
    moreover from that have "take i (w @ rest) = take i w" by simp
    ultimately have eq: "w @ rest = take i w @ CDN_URL @ t"
      using t by (simp only:)
    from that have "take i w \<noteq> []" using wne by (cases w) auto
    from occurrence_before_next[OF w eq this] that show False by simp
  qed
  show ?thesis
  proof (rule set_eqI)
    fix i
    show "i \<in> occurrence_positions (w @ rest)
            \<longleftrightarrow> i \<in> insert 0 ((\<lambda>j. length w + j) ` occurrence_positions rest)"
    proof (cases "i = 0")
      case True
      with so0 wne show ?thesis by (simp add: occurrence_positions_def)
    next
      case False
      show ?thesis
      proof (cases "i < length w")
        case True
        with False inside[of i] have "i \<notin> occurrence_positions (w @ rest)"
          by (simp add: occurrence_positions_def)
        moreover from True have "i \<notin> (\<lambda>j. length w + j) ` occurrence_positions rest" by auto
        ultimately show ?thesis using False by simp
      next
        case ge: False
        then obtain j where j: "i = length w + j" by (metis le_Suc_ex not_less)
        then have "i \<in> occurrence_positions (w @ rest) \<longleftrightarrow> j \<in> occurrence_positions rest"
          by (simp add: occurrence_positions_def)
        also have "\<dots> \<longleftrightarrow> i \<in> (\<lambda>j. length w + j) ` occurrence_positions rest"
          using j by auto
        finally show ?thesis using False by simp
      qed
    qed
  qed
qed

lemma count_positions:
  assumes "scan s segs"
  shows "length (filter is_ref segs) = card (occurrence_positions s)"
  using assms
proof (induction rule: scan.induct)
  case scan_Nil
  show ?case by (simp add: occurrence_positions_def)
next
  case (scan_Plain c cs segs)
  then show ?case
    by (simp add: occurrence_positions_Plain card_image)
next
  case (scan_Ref stem ext major minor patch rest segs)
  let ?w = "seg_src (Ref stem ext major minor patch)"
  have q: "qualifies ?w" using scan_Ref(1) by (rule qualifies_seg_src)
  from qualifies_shape[OF q] have wne: "0 < length ?w" by auto
  have "0 \<notin> (\<lambda>j. length ?w + j) ` occurrence_positions rest"
    using wne by auto
  moreover have "card ((\<lambda>j. length ?w + j) ` occurrence_positions rest) = card (occurrence_positions rest)"
    by (rule card_image) (simp add: inj_on_def)
  ultimately have "card (occurrence_positions (?w @ rest)) = Suc (card (occurrence_positions rest))"
    unfolding occurrence_positions_Ref[OF q]
    by (simp add: finite_occurrence_positions)
  with scan_Ref(4) show ?case by (simp del: seg_src.simps)
qed

subsection \<open>Texts put together\<close>

lemma at_boundary_seg_src: "at_boundary (seg_src (Ref stem ext major minor patch) @ rest)"
  unfolding at_boundary_def seg_src.simps append_assoc by blast

lemma foldl_seg_change:
  "foldl seg_change m segs = m ++ foldl seg_change Map.empty segs"
proof (induction segs arbitrary: m)
  case Nil
  show ?case by simp
next
  case (Cons x segs)
  show ?case
  proof (cases x)
    case (Plain c)
    show ?thesis
      unfolding Plain foldl_Cons seg_change.simps by (rule Cons.IH)
  next
    case (Ref stem ext major minor patch)
    let ?k = "stem @ ext"
    let ?v = "(major @ ''.'' @ minor @ ''.'' @ patch,
               major @ ''.'' @ minor @ ''.'' @ zfill2 (nat_of_digits patch + 1))"
    have 1: "foldl seg_change m (x # segs) = m(?k \<mapsto> ?v) ++ foldl seg_change Map.empty segs"
      unfolding Ref foldl_Cons seg_change.simps by (rule Cons.IH)
    have 2: "foldl seg_change Map.empty (x # segs) = [?k \<mapsto> ?v] ++ foldl seg_change Map.empty segs"
      unfolding Ref foldl_Cons seg_change.simps by (rule Cons.IH)
    have 3: "m(?k \<mapsto> ?v) = m ++ [?k \<mapsto> ?v]" by simp
    show ?thesis
      unfolding 1 2 3 by (simp only: map_add_assoc)
  qed
qed

lemma changes_of_Nil: "changes_of [] = Map.empty"
  by (simp add: changes_of_def)

lemma changes_of_Cons: "changes_of (x # segs) = seg_change Map.empty x ++ changes_of segs"
  unfolding changes_of_def foldl_Cons by (rule foldl_seg_change)

lemma changes_of_append: "changes_of (segs1 @ segs2) = changes_of segs1 ++ changes_of segs2"
  unfolding changes_of_def foldl_append by (rule foldl_seg_change)

text \<open>The rewrite of a text around an occurrence: the text before it, the occurrence and
  the text after it are rewritten one after the other, and the first error ends the run.\<close>

lemma update_around:
  assumes ok: "seg_ok (Ref stem ext major minor patch)" and nd: "no_digit_next rest"
  shows "update_cdn_versions (pre @ seg_src (Ref stem ext major minor patch) @ rest)
           = (case update_cdn_versions pre of
                Inl e \<Rightarrow> Inl e
              | Inr (u1, n1, ch1) \<Rightarrow>
                  if patch_fits patch then
                    (case update_cdn_versions rest of
                       Inl e \<Rightarrow> Inl e
                     | Inr (u2, n2, ch2) \<Rightarrow>
                         Inr (u1 @ seg_out (Ref stem ext major minor patch) @ u2,
                              n1 + 1 + n2,
                              (ch1 ++ seg_change Map.empty (Ref stem ext major minor patch)) ++ ch2))
                  else Inl ValueError)"
proof -
  let ?R = "Ref stem ext major minor patch"
  obtain segs1 segs2 where s: "scan pre segs1" "scan rest segs2"
    using scan_total by blast
  note s2 = scan.scan_Ref[OF ok nd s(2)]
  note sc = scan_append[OF s(1) s2 at_boundary_seg_src]
  have c: "changes_of (segs1 @ ?R # segs2)
             = (changes_of segs1 ++ seg_change Map.empty ?R) ++ changes_of segs2"
    unfolding changes_of_append changes_of_Cons by (simp only: map_add_assoc)
  show ?thesis
    unfolding update_scan[OF sc] update_scan[OF s(1)] update_scan[OF s(2)] c
    by (simp del: seg_src.simps seg_out.simps seg_change.simps)
qed

text \<open>
  Claim C2, amended. When the patch group of every matched occurrence can be incremented,
  every qualifying occurrence is rewritten, not only the first. Every content has a scan,
  and when all its occurrences fit, the rewrite returns and its change count is the number
  of positions of the content at which a qualifying occurrence starts (the host prefix, a
  filename stem of word characters, dots, underscores or hyphens, the extension \<open>.js\<close> or
  \<open>.css\<close>, then \<open>?v=\<close> and three dot-separated digit groups). And wherever such an
  occurrence stands, with its patch group read to its end and fit to be incremented,
  between two texts whose rewrites return, the three are rewritten one after the other,
  left to right: the output is the rewritten text before, the occurrence with its patch
  incremented, and the rewritten text after, and the counts add up.
\<close>

theorem every_occurrence_rewritten:
  "(\<exists>segs. scan content segs)
   \<and> (scan content segs \<and> list_all seg_fits segs \<longrightarrow>
        (\<exists>u ch. update_cdn_versions content = Inr (u, card (occurrence_positions content), ch)))
   \<and> (name_stem stem \<and> is_ext ext \<and> digits major \<and> digits minor \<and> digits patch
        \<and> no_digit_next rest \<and> patch_fits patch
        \<and> update_cdn_versions pre = Inr (u1, n1, ch1)
        \<and> update_cdn_versions rest = Inr (u2, n2, ch2) \<longrightarrow>
      (\<exists>ch. update_cdn_versions
              (pre @ CDN_URL @ stem @ ext @ ''?v='' @ major @ ''.'' @ minor @ ''.'' @ patch @ rest)
            = Inr (u1 @ CDN_URL @ stem @ ext @ ''?v='' @ major @ ''.'' @ minor @ ''.''
                      @ zfill2 (nat_of_digits patch + 1) @ u2,
                   n1 + 1 + n2, ch)))"
proof (intro conjI impI)
  show "\<exists>segs. scan content segs" by (rule scan_total)
next
  assume "scan content segs \<and> list_all seg_fits segs"
  then have s: "scan content segs" and f: "list_all seg_fits segs" by simp_all
  show "\<exists>u ch. update_cdn_versions content = Inr (u, card (occurrence_positions content), ch)"
    unfolding update_returns[OF s f] count_positions[OF s] by blast
next
  assume a: "name_stem stem \<and> is_ext ext \<and> digits major \<and> digits minor \<and> digits patch
        \<and> no_digit_next rest \<and> patch_fits patch
        \<and> update_cdn_versions pre = Inr (u1, n1, ch1)
        \<and> update_cdn_versions rest = Inr (u2, n2, ch2)"
  then have ok: "seg_ok (Ref stem ext major minor patch)" and nd: "no_digit_next rest" by simp_all
  from update_around[OF ok nd, of pre] a
  show "\<exists>ch. update_cdn_versions
              (pre @ CDN_URL @ stem @ ext @ ''?v='' @ major @ ''.'' @ minor @ ''.'' @ patch @ rest)
            = Inr (u1 @ CDN_URL @ stem @ ext @ ''?v='' @ major @ ''.'' @ minor @ ''.''
                      @ zfill2 (nat_of_digits patch + 1) @ u2,
                   n1 + 1 + n2, ch)"
    by simp
qed

text \<open>
  Claim C4, amended. Every content has a scan: a split, left to right, into plain
  characters and matched occurrences. For any scan of the content in which the patch group
  of every matched occurrence can be incremented, the rewrite returns; the updated content
  is the same sequence in which each plain character is kept and each matched span is
  replaced by its captured base, \<open>?v=\<close> and the incremented version (\<open>seg_out\<close>); the change
  count is the number of matched spans. Nothing outside the matched spans changes. When
  some patch group of the scan cannot be incremented, the rewrite raises and returns
  nothing.
\<close>

theorem rewrite_frame:
  "(\<exists>segs. scan content segs)
   \<and> (scan content segs \<longrightarrow>
        content = concat (map seg_src segs)
        \<and> list_all seg_ok segs
        \<and> (list_all seg_fits segs \<longrightarrow>
             update_cdn_versions content
               = Inr (concat (map seg_out segs), length (filter is_ref segs), changes_of segs))
        \<and> (\<not> list_all seg_fits segs \<longrightarrow> update_cdn_versions content = Inl ValueError))"
  using scan_total[of content] scan_src[of content segs] scan_ok[of content segs]
    update_returns[of content segs] update_raises[of content segs]
  by blast

subsection \<open>A rewritten occurrence differs from the original\<close>

lemma takeWhile_digits: "digits ds \<Longrightarrow> no_digit_next r \<Longrightarrow> takeWhile is_digit (ds @ r) = ds"
  using takeWhile_digits_append[of ds r] by (auto simp: digits_def dest: no_digit_nextD)

lemma zfill2_neq:
  assumes "digits patch"
  shows "zfill2 (nat_of_digits patch + 1) \<noteq> patch"
proof
  assume "zfill2 (nat_of_digits patch + 1) = patch"
  then have "nat_of_digits (zfill2 (nat_of_digits patch + 1)) = nat_of_digits patch" by simp
  then show False by (simp add: nat_of_digits_zfill2)
qed

lemma patch_tail_neq:
  assumes "digits patch" "no_digit_next r" "no_digit_next r'"
  shows "zfill2 (nat_of_digits patch + 1) @ r' \<noteq> patch @ r"
proof
  assume "zfill2 (nat_of_digits patch + 1) @ r' = patch @ r"
  then have "takeWhile is_digit (zfill2 (nat_of_digits patch + 1) @ r') = takeWhile is_digit (patch @ r)"
    by simp
  then have "zfill2 (nat_of_digits patch + 1) = patch"
    by (simp only: takeWhile_digits[OF zfill2_digits assms(3)] takeWhile_digits[OF assms(1,2)])
  with zfill2_neq[OF assms(1)] show False by simp
qed

lemma seg_out_neq_src:
  assumes ok: "seg_ok (Ref stem ext major minor patch)" and r: "no_digit_next r" "no_digit_next r'"
  shows "seg_out (Ref stem ext major minor patch) @ r' \<noteq> seg_src (Ref stem ext major minor patch) @ r"
proof -
  from ok have "digits patch" by simp
  from patch_tail_neq[OF this r] show ?thesis
    unfolding seg_out_Ref by simp
qed

lemma scan_out_hd:
  assumes "scan s segs"
  shows "no_digit_next s \<longleftrightarrow> no_digit_next (concat (map seg_out segs))"
  using assms
proof (induction rule: scan.induct)
  case scan_Nil
  show ?case by simp
next
  case (scan_Plain c cs segs)
  show ?case by (simp add: no_digit_next_def)
next
  case (scan_Ref stem ext major minor patch rest segs)
  have "no_digit_next (seg_src (Ref stem ext major minor patch) @ rest)"
    using no_digit_next_CDN by simp
  moreover have "no_digit_next (seg_out (Ref stem ext major minor patch) @ concat (map seg_out segs))"
    using no_digit_next_CDN by simp
  ultimately show ?case by (simp del: seg_src.simps seg_out.simps)
qed

lemma scan_text_eq_iff:
  assumes "scan s segs"
  shows "concat (map seg_out segs) = s \<longleftrightarrow> filter is_ref segs = []"
  using assms
proof (induction rule: scan.induct)
  case scan_Nil
  show ?case by simp
next
  case (scan_Plain c cs segs)
  then show ?case by simp
next
  case (scan_Ref stem ext major minor patch rest segs)
  from scan_Ref(2) scan_out_hd[OF scan_Ref(3)]
  have "no_digit_next (concat (map seg_out segs))" by simp
  from seg_out_neq_src[OF scan_Ref(1) scan_Ref(2) this]
  show ?case by (simp del: seg_src.simps seg_out.simps)
qed

lemma changes_entries:
  assumes "list_all seg_ok segs" "list_all seg_fits segs" "foldl seg_change m segs f = Some r"
  shows "m f = Some r
     \<or> (\<exists>stem ext major minor patch. seg_ok (Ref stem ext major minor patch)
          \<and> patch_fits patch
          \<and> f = stem @ ext
          \<and> r = (major @ ''.'' @ minor @ ''.'' @ patch,
                 major @ ''.'' @ minor @ ''.'' @ zfill2 (nat_of_digits patch + 1)))"
  using assms
proof (induction segs arbitrary: m)
  case Nil
  then show ?case by simp
next
  case (Cons x segs)
  show ?case
  proof (cases x)
    case (Plain c)
    with Cons show ?thesis by simp
  next
    case (Ref stem ext major minor patch)
    with Cons.prems have ok: "seg_ok (Ref stem ext major minor patch)" "list_all seg_ok segs"
      and fi: "patch_fits patch" "list_all seg_fits segs"
      and f: "foldl seg_change (seg_change m x) segs f = Some r" by simp_all
    from Cons.IH[OF ok(2) fi(2) f] show ?thesis
    proof
      assume a: "seg_change m x f = Some r"
      show ?thesis
      proof (cases "f = stem @ ext")
        case True
        with a have "r = (major @ ''.'' @ minor @ ''.'' @ patch,
                 major @ ''.'' @ minor @ ''.'' @ zfill2 (nat_of_digits patch + 1))"
          unfolding Ref by simp
        with True ok(1) fi(1) show ?thesis by blast
      next
        case False
        with a have "m f = Some r" unfolding Ref by simp
        then show ?thesis ..
      qed
    next
      assume "\<exists>stem ext major minor patch. seg_ok (Ref stem ext major minor patch)
          \<and> patch_fits patch
          \<and> f = stem @ ext
          \<and> r = (major @ ''.'' @ minor @ ''.'' @ patch,
                 major @ ''.'' @ minor @ ''.'' @ zfill2 (nat_of_digits patch + 1))"
      then show ?thesis by blast
    qed
  qed
qed

lemma has_version_prefix_triple:
  "digits major \<Longrightarrow> digits minor \<Longrightarrow> digits patch
     \<Longrightarrow> has_version_prefix (major @ ''.'' @ minor @ ''.'' @ patch)"
  unfolding has_version_prefix_def by (metis append_Nil2)

text \<open>
  Claim C10. Whenever the rewrite returns, the updated content equals the input exactly
  when the change count is 0, and every recorded pair has a new version different from the
  old one: the old version always begins with a digit triple, so \<open>increment_version\<close> never
  takes its fallback branch here, and the new version is what it returns for the old one.
  The rewrite returns when every patch group of the scan can be incremented, and raises
  otherwise.
\<close>

theorem unchanged_iff_no_change:
  "(update_cdn_versions content = Inr (u, n, ch) \<longrightarrow>
      (u = content \<longleftrightarrow> n = 0)
      \<and> (ch f = Some (old, new) \<longrightarrow>
           old \<noteq> new \<and> has_version_prefix old \<and> increment_version old = Inr new))
   \<and> (\<exists>segs. scan content segs
        \<and> (if list_all seg_fits segs
            then \<exists>u n ch. update_cdn_versions content = Inr (u, n, ch)
            else update_cdn_versions content = Inl ValueError))"
proof (intro conjI impI)
  obtain segs where s: "scan content segs" using scan_total by blast
  show "\<exists>segs. scan content segs
        \<and> (if list_all seg_fits segs
            then \<exists>u n ch. update_cdn_versions content = Inr (u, n, ch)
            else update_cdn_versions content = Inl ValueError)"
    using s update_scan[OF s] by (intro exI[of _ segs]) simp
  assume r: "update_cdn_versions content = Inr (u, n, ch)"
  note i = update_Inr_scan[OF s r]
  show "u = content \<longleftrightarrow> n = 0"
    unfolding i(2,3) using scan_text_eq_iff[OF s] by simp
  assume "ch f = Some (old, new)"
  then have "foldl seg_change Map.empty segs f = Some (old, new)"
    by (simp add: i(4) changes_of_def)
  from changes_entries[OF scan_ok[OF s] i(1) this] obtain stem ext major minor patch where
    ok: "seg_ok (Ref stem ext major minor patch)"
    and fi: "patch_fits patch"
    and old: "old = major @ ''.'' @ minor @ ''.'' @ patch"
    and new: "new = major @ ''.'' @ minor @ ''.'' @ zfill2 (nat_of_digits patch + 1)"
    by auto
  from ok have d: "digits major" "digits minor" "digits patch" by simp_all
  show "old \<noteq> new" unfolding old new using zfill2_neq[OF d(3)] by simp
  show "has_version_prefix old" unfolding old by (rule has_version_prefix_triple[OF d])
  show "increment_version old = Inr new"
    unfolding old new using increment_version_seg[OF ok] fi by simp
qed

subsection \<open>Running the rewrite on its own output\<close>

lemma seg_ok_bump: "seg_ok x \<Longrightarrow> seg_ok (bump x)"
  by (cases x) (simp_all add: zfill2_digits)

lemma is_ref_bump: "is_ref (bump x) = is_ref x"
  by (cases x) simp_all

lemma seg_out_bump: "seg_out x = seg_src (bump x)"
  by (cases x) simp_all

lemma scan_out_prefix:
  assumes "scan s segs"
  shows "concat (map seg_out segs) = s
     \<or> (\<exists>q t t'. s = q @ CDN_URL @ t \<and> concat (map seg_out segs) = q @ CDN_URL @ t')"
  using assms
proof (induction rule: scan.induct)
  case scan_Nil
  show ?case by simp
next
  case (scan_Plain c cs segs)
  from scan_Plain(3) show ?case
  proof
    assume "concat (map seg_out segs) = cs"
    then show ?thesis by simp
  next
    assume "\<exists>q t t'. cs = q @ CDN_URL @ t \<and> concat (map seg_out segs) = q @ CDN_URL @ t'"
    then obtain q t t' where "cs = q @ CDN_URL @ t" "concat (map seg_out segs) = q @ CDN_URL @ t'"
      by blast
    then have "c # cs = (c # q) @ CDN_URL @ t
        \<and> concat (map seg_out (Plain c # segs)) = (c # q) @ CDN_URL @ t'" by simp
    then show ?thesis by blast
  qed
next
  case (scan_Ref stem ext major minor patch rest segs)
  have "seg_src (Ref stem ext major minor patch) @ rest
          = [] @ CDN_URL @ (stem @ ext @ ''?v='' @ major @ ''.'' @ minor @ ''.'' @ patch @ rest)"
    by simp
  moreover have "concat (map seg_out (Ref stem ext major minor patch # segs))
          = [] @ CDN_URL @ (stem @ ext @ ''?v='' @ major @ ''.'' @ minor @ ''.''
               @ zfill2 (nat_of_digits patch + 1)
               @ concat (map seg_out segs))"
    by simp
  ultimately show ?case by blast
qed

lemma not_starts_occurrence_out:
  assumes "scan cs segs" "\<not> starts_occurrence (c # cs)"
  shows "\<not> starts_occurrence (c # concat (map seg_out segs))"
  using scan_out_prefix[OF assms(1)]
proof
  assume "concat (map seg_out segs) = cs"
  with assms(2) show ?thesis by simp
next
  assume "\<exists>q t t'. cs = q @ CDN_URL @ t \<and> concat (map seg_out segs) = q @ CDN_URL @ t'"
  then obtain q t t' where q: "cs = q @ CDN_URL @ t" "concat (map seg_out segs) = q @ CDN_URL @ t'"
    by blast
  have "\<not> starts_occurrence (c # q)"
    using assms(2) starts_occurrence_append[of "c # q" "CDN_URL @ t"] unfolding q(1) by auto
  then have "\<not> starts_occurrence ((c # q) @ CDN_URL @ t')"
    using starts_occurrence_local[of "c # q" t'] by blast
  then show ?thesis unfolding q(2) by simp
qed

lemma scan_bump:
  assumes "scan s segs"
  shows "scan (concat (map seg_out segs)) (map bump segs)"
  using assms
proof (induction rule: scan.induct)
  case scan_Nil
  show ?case by (simp add: scan.scan_Nil)
next
  case (scan_Plain c cs segs)
  from not_starts_occurrence_out[OF scan_Plain(2,1)] scan_Plain(3)
  show ?case by (simp add: scan.scan_Plain)
next
  case (scan_Ref stem ext major minor patch rest segs)
  let ?x = "Ref stem ext major minor patch"
  have ok: "seg_ok (bump ?x)" using scan_Ref(1) by (rule seg_ok_bump)
  have nd: "no_digit_next (concat (map seg_out segs))"
    using scan_Ref(2) scan_out_hd[OF scan_Ref(3)] by simp
  have "scan (seg_src (bump ?x) @ concat (map seg_out segs)) (bump ?x # map bump segs)"
    using ok nd scan_Ref(4) unfolding bump.simps by (rule scan.scan_Ref)
  then show ?case
    using seg_out_bump[of ?x] by (simp del: seg_src.simps seg_out.simps bump.simps seg_ok.simps)
qed

lemma out_bump: "concat (map seg_out segs) = concat (map (seg_src \<circ> bump) segs)"
  by (induction segs) (simp_all add: seg_out_bump del: seg_src.simps seg_out.simps bump.simps)

lemma changes_bump:
  assumes "list_all seg_ok segs" "list_all seg_fits (map bump segs)"
    and "rel_option (\<lambda>r r'. fst r' = snd r \<and> increment_version (snd r) = Inr (snd r')) (m f) (m' f)"
  shows "rel_option (\<lambda>r r'. fst r' = snd r \<and> increment_version (snd r) = Inr (snd r'))
           (foldl seg_change m segs f) (foldl seg_change m' (map bump segs) f)"
  using assms
proof (induction segs arbitrary: m m')
  case Nil
  then show ?case by simp
next
  case (Cons x segs)
  let ?R = "\<lambda>r r'. fst r' = snd r \<and> increment_version (snd r) = Inr (snd r')"
  from Cons.prems(1) have ok: "seg_ok x" "list_all seg_ok segs" by simp_all
  from Cons.prems(2) have fi: "seg_fits (bump x)" "list_all seg_fits (map bump segs)" by simp_all
  have "rel_option ?R (seg_change m x f) (seg_change m' (bump x) f)"
  proof (cases x)
    case (Plain c)
    with Cons.prems(3) show ?thesis by simp
  next
    case (Ref stem ext major minor patch)
    let ?np = "zfill2 (nat_of_digits patch + 1)"
    from ok(1) have "seg_ok (Ref stem ext major minor ?np)"
      unfolding Ref by (simp add: zfill2_digits)
    from increment_version_seg[OF this] fi(1)
    have "increment_version (major @ ''.'' @ minor @ ''.'' @ ?np)
            = Inr (major @ ''.'' @ minor @ ''.'' @ zfill2 (nat_of_digits ?np + 1))"
      unfolding Ref by simp
    with Cons.prems(3) show ?thesis
      unfolding Ref by simp
  qed
  from Cons.IH[of "seg_change m x" "seg_change m' (bump x)", OF ok(2) fi(2) this]
  show ?case by simp
qed

text \<open>
  Claim C5, amended. The rewrite is not idempotent, as long as the patch groups can be
  incremented. Every content has a scan. When the patch group of every matched occurrence
  can be incremented twice, both runs return: the second run finds the same occurrences
  again, so its change count equals that of the first; if there is an occurrence, the text
  changes again; the three texts are the same scan with every patch incremented zero, one
  and two times; and each recorded pair of the second run starts from the new version of
  the first run and increments it again. And whenever the rewrite and the rewrite of its
  output both return, the two change counts are equal and, if they are positive, the two
  outputs differ.
\<close>

theorem second_run_increments_again:
  "(\<exists>segs. scan content segs)
   \<and> (scan content segs \<and> list_all seg_fits segs \<and> list_all seg_fits (map bump segs) \<longrightarrow>
        update_cdn_versions content
          = Inr (concat (map (seg_src \<circ> bump) segs), length (filter is_ref segs),
                 changes_of segs)
        \<and> update_cdn_versions (concat (map (seg_src \<circ> bump) segs))
          = Inr (concat (map (seg_src \<circ> bump \<circ> bump) segs), length (filter is_ref segs),
                 changes_of (map bump segs))
        \<and> (filter is_ref segs \<noteq> [] \<longrightarrow>
             concat (map (seg_src \<circ> bump \<circ> bump) segs) \<noteq> concat (map (seg_src \<circ> bump) segs))
        \<and> (changes_of segs f = None \<longrightarrow> changes_of (map bump segs) f = None)
        \<and> (changes_of segs f = Some (old, new) \<longrightarrow>
             (\<exists>new2. changes_of (map bump segs) f = Some (new, new2)
                \<and> increment_version new = Inr new2)))
   \<and> (update_cdn_versions content = Inr (u, n, ch) \<and> update_cdn_versions u = Inr (u2, n2, ch2) \<longrightarrow>
        n2 = n \<and> (0 < n \<longrightarrow> u2 \<noteq> u))"
proof (intro conjI impI)
  show "\<exists>segs. scan content segs" by (rule scan_total)
next
  assume a: "scan content segs \<and> list_all seg_fits segs \<and> list_all seg_fits (map bump segs)"
  then have s: "scan content segs" and f1: "list_all seg_fits segs"
    and f2: "list_all seg_fits (map bump segs)" by simp_all
  note s2 = scan_bump[OF s]
  note ok = scan_ok[OF s]
  have fl: "filter is_ref (map bump segs) = map bump (filter is_ref segs)"
    by (simp add: filter_map comp_def is_ref_bump)
  have o2: "concat (map seg_out (map bump segs)) = concat (map (seg_src \<circ> bump \<circ> bump) segs)"
    unfolding out_bump[of "map bump segs"] by (simp add: comp_def)
  show 1: "update_cdn_versions content
          = Inr (concat (map (seg_src \<circ> bump) segs), length (filter is_ref segs),
                 changes_of segs)"
    unfolding update_returns[OF s f1] out_bump ..
  show 2: "update_cdn_versions (concat (map (seg_src \<circ> bump) segs))
          = Inr (concat (map (seg_src \<circ> bump \<circ> bump) segs), length (filter is_ref segs),
                 changes_of (map bump segs))"
    using update_returns[OF s2 f2] unfolding o2 out_bump fl by simp
  show "concat (map (seg_src \<circ> bump \<circ> bump) segs) \<noteq> concat (map (seg_src \<circ> bump) segs)"
    if "filter is_ref segs \<noteq> []"
  proof -
    from that have "filter is_ref (map bump segs) \<noteq> []" unfolding fl by simp
    with scan_text_eq_iff[OF s2] show ?thesis
      unfolding o2 out_bump by simp
  qed
  have rel: "rel_option (\<lambda>r r'. fst r' = snd r \<and> increment_version (snd r) = Inr (snd r'))
           (changes_of segs f) (changes_of (map bump segs) f)"
    unfolding changes_of_def by (rule changes_bump[OF ok f2]) simp
  show "changes_of (map bump segs) f = None" if "changes_of segs f = None"
    using rel that by (cases "changes_of (map bump segs) f") simp_all
  show "\<exists>new2. changes_of (map bump segs) f = Some (new, new2) \<and> increment_version new = Inr new2"
    if "changes_of segs f = Some (old, new)"
    using rel that by (cases "changes_of (map bump segs) f") auto
next
  assume a: "update_cdn_versions content = Inr (u, n, ch) \<and> update_cdn_versions u = Inr (u2, n2, ch2)"
  obtain segs where s: "scan content segs" using scan_total by blast
  from a have r1: "update_cdn_versions content = Inr (u, n, ch)"
    and r2: "update_cdn_versions u = Inr (u2, n2, ch2)" by simp_all
  note i = update_Inr_scan[OF s r1]
  have s2: "scan u (map bump segs)" unfolding i(2) by (rule scan_bump[OF s])
  note j = update_Inr_scan[OF s2 r2]
  have fl: "filter is_ref (map bump segs) = map bump (filter is_ref segs)"
    by (simp add: filter_map comp_def is_ref_bump)
  show "n2 = n" unfolding i(3) j(3) fl by simp
  show "u2 \<noteq> u" if "0 < n"
  proof -
    from that have "filter is_ref (map bump segs) \<noteq> []" unfolding i(3) fl by simp
    with scan_text_eq_iff[OF s2] show ?thesis unfolding j(2) by simp
  qed
qed

subsection \<open>Repeated filenames\<close>

lemma merge_changes_keeps: "a f = Some r \<Longrightarrow> merge_changes a vc f = Some r"
  by (simp add: merge_changes_def)

lemma merge_changes_adds: "a f = None \<Longrightarrow> merge_changes a vc f = vc f"
  by (simp add: merge_changes_def)

lemma process_files_keeps:
  "all_version_changes t f = Some r
     \<Longrightarrow> all_version_changes (snd (process_files ps w t)) f = Some r"
proof (induction ps arbitrary: w t)
  case Nil
  then show ?case by simp
next
  case (Cons p ps)
  obtain w' success n vc where r: "process_html_file p w = (w', success, n, vc)"
    by (metis prod_cases4)
  show ?case
  proof (cases "success \<and> 0 < n")
    case True
    have "all_version_changes
            \<lparr>total_changes = total_changes t + n, files_modified = files_modified t + 1,
               all_version_changes = merge_changes (all_version_changes t) vc\<rparr> f = Some r"
      using Cons.prems by (simp add: merge_changes_keeps)
    from Cons.IH[OF this] True show ?thesis by (simp add: r)
  next
    case False
    with Cons.IH[OF Cons.prems, of w'] show ?thesis by (auto simp: r)
  qed
qed

lemma process_html_file_returns:
  assumes "files w p = File c wr" "update_cdn_versions c = Inr (u, n, ch)"
  shows "process_html_file p w =
     (if 0 < n then
        (if wr then
           (w\<lparr>files := (files w)(p := File u wr), writes := writes w @ [(p, u)]\<rparr>,
            True, n, ch)
         else (w\<lparr>errors := errors w @ [Error_processing p]\<rparr>, False, 0, Map.empty))
      else (w, True, 0, Map.empty))"
  by (simp add: process_html_file_def assms)

lemma process_html_file_raises:
  assumes "files w p = File c wr" "update_cdn_versions c = Inl e"
  shows "process_html_file p w
           = (w\<lparr>errors := errors w @ [Error_processing p]\<rparr>, False, 0, Map.empty)"
  by (simp add: process_html_file_def assms)


text \<open>
  Claim C6, amended. Within one content, when the rewrite returns, every occurrence counts,
  and the map of changes of the text before an occurrence is overridden by the record of
  that occurrence, which is overridden by the map of the text after it: for a repeated
  filename the last occurrence stays. This is stated for an occurrence whose patch group
  can be incremented, between two texts whose rewrites return. Across files it is the other
  way round: a filename already in the run-wide summary keeps its record through the rest
  of the run, and a filename not yet in the summary gets the record of the first file that
  has it and is modified (its rewrite returns a positive count and it is written).
\<close>

theorem duplicate_filenames:
  "(name_stem stem \<and> is_ext ext \<and> digits major \<and> digits minor \<and> digits patch
      \<and> no_digit_next rest \<and> patch_fits patch
      \<and> update_cdn_versions pre = Inr (u1, n1, ch1)
      \<and> update_cdn_versions rest = Inr (u2, n2, ch2) \<longrightarrow>
      (\<exists>u. update_cdn_versions
              (pre @ CDN_URL @ stem @ ext @ ''?v='' @ major @ ''.'' @ minor @ ''.'' @ patch @ rest)
            = Inr (u, n1 + 1 + n2,
                   (ch1 ++ [stem @ ext \<mapsto>
                             (major @ ''.'' @ minor @ ''.'' @ patch,
                              major @ ''.'' @ minor @ ''.'' @ zfill2 (nat_of_digits patch + 1))])
                   ++ ch2)))
   \<and> (all_version_changes t f = Some r \<longrightarrow>
        all_version_changes (snd (process_files ps w t)) f = Some r)
   \<and> (files w p = File c True \<and> update_cdn_versions c = Inr (u', n', ch') \<and> 0 < n'
        \<and> ch' f = Some r \<and> all_version_changes t f = None \<longrightarrow>
        all_version_changes (snd (process_files (p # ps) w t)) f = Some r)"
proof (intro conjI impI)
  assume a: "name_stem stem \<and> is_ext ext \<and> digits major \<and> digits minor \<and> digits patch
      \<and> no_digit_next rest \<and> patch_fits patch
      \<and> update_cdn_versions pre = Inr (u1, n1, ch1)
      \<and> update_cdn_versions rest = Inr (u2, n2, ch2)"
  then have ok: "seg_ok (Ref stem ext major minor patch)" and nd: "no_digit_next rest" by simp_all
  from update_around[OF ok nd, of pre] a
  show "\<exists>u. update_cdn_versions
              (pre @ CDN_URL @ stem @ ext @ ''?v='' @ major @ ''.'' @ minor @ ''.'' @ patch @ rest)
            = Inr (u, n1 + 1 + n2,
                   (ch1 ++ [stem @ ext \<mapsto>
                             (major @ ''.'' @ minor @ ''.'' @ patch,
                              major @ ''.'' @ minor @ ''.'' @ zfill2 (nat_of_digits patch + 1))])
                   ++ ch2)"
    by (simp del: map_add_upd)
next
  assume "all_version_changes t f = Some r"
  then show "all_version_changes (snd (process_files ps w t)) f = Some r"
    by (rule process_files_keeps)
next
  assume a: "files w p = File c True \<and> update_cdn_versions c = Inr (u', n', ch') \<and> 0 < n'
        \<and> ch' f = Some r \<and> all_version_changes t f = None"
  let ?t = "\<lparr>total_changes = total_changes t + n',
             files_modified = files_modified t + 1,
             all_version_changes = merge_changes (all_version_changes t) ch'\<rparr>"
  from a have fl: "files w p = File c True" and r: "update_cdn_versions c = Inr (u', n', ch')"
    by simp_all
  from a have "all_version_changes ?t f = Some r"
    by (simp add: merge_changes_adds)
  from process_files_keeps[OF this] a
  show "all_version_changes (snd (process_files (p # ps) w t)) f = Some r"
    by (simp add: process_html_file_returns[OF fl r])
qed

subsection \<open>The driver\<close>






subsection \<open>Runs on small pages\<close>

lemma name_chars_ab: "is_name_char (CHR ''a'')" "is_name_char (CHR ''b'')"
  by (simp_all add: is_name_char_def is_word_def)

lemma no_digit_next_simps:
  "no_digit_next []" "no_digit_next (c # cs) = (\<not> is_digit c)"
  by (simp_all add: no_digit_next_def)

lemma not_digit_space: "\<not> is_digit (CHR '' '')"
  by (simp add: is_digit_def)

lemma seg_ok_a: "digits major \<Longrightarrow> digits minor \<Longrightarrow> digits patch
    \<Longrightarrow> seg_ok (Ref ''a'' ''.js'' major minor patch)"
  by (simp add: name_stem_def name_chars_ab is_ext_def)

lemma seg_ok_b: "digits major \<Longrightarrow> digits minor \<Longrightarrow> digits patch
    \<Longrightarrow> seg_ok (Ref ''b'' ''.css'' major minor patch)"
  by (simp add: name_stem_def name_chars_ab is_ext_def)

lemma digits_examples:
  "digits ''0''" "digits ''1''" "digits ''2''" "digits ''5''" "digits ''9''" "digits ''10''"
  "digits ''99''"
  by (simp_all add: digits_simps is_digit_simps)

lemma scan_one:
  assumes "seg_ok (Ref stem ext major minor patch)"
  shows "scan (seg_src (Ref stem ext major minor patch)) [Ref stem ext major minor patch]"
  using scan.scan_Ref[OF assms no_digit_next_simps(1) scan.scan_Nil]
  by (simp del: seg_src.simps seg_ok.simps)

lemma scan_one_space:
  assumes "seg_ok (Ref stem ext major minor patch)"
  shows "scan (seg_src (Ref stem ext major minor patch) @ '' '')
              [Ref stem ext major minor patch, Plain (CHR '' '')]"
proof -
  have "\<not> starts_occurrence '' ''"
    using starts_occurrence_hd[of "'' ''"] by auto
  from scan.scan_Plain[OF this scan.scan_Nil]
  have 1: "scan '' '' [Plain (CHR '' '')]" .
  have "no_digit_next '' ''"
    by (simp only: no_digit_next_simps not_digit_space not_False_eq_True)
  from scan.scan_Ref[OF assms this 1] show ?thesis .
qed

lemma scan_two:
  assumes "seg_ok (Ref stem ext major minor patch)" "seg_ok (Ref stem' ext' major' minor' patch')"
  shows "scan (seg_src (Ref stem ext major minor patch) @ '' ''
                 @ seg_src (Ref stem' ext' major' minor' patch'))
              [Ref stem ext major minor patch, Plain (CHR '' ''),
               Ref stem' ext' major' minor' patch']"
proof -
  let ?b = "seg_src (Ref stem' ext' major' minor' patch')"
  have "\<not> starts_occurrence (CHR '' '' # ?b)"
    using starts_occurrence_hd[of "CHR '' '' # ?b"] by auto
  from scan.scan_Plain[OF this scan_one[OF assms(2)]]
  have 2: "scan (CHR '' '' # ?b) [Plain (CHR '' ''), Ref stem' ext' major' minor' patch']" .
  have "no_digit_next (CHR '' '' # ?b)"
    by (simp only: no_digit_next_simps not_digit_space not_False_eq_True)
  from scan.scan_Ref[OF assms(1) this 2]
  show ?thesis by (simp del: seg_src.simps seg_ok.simps)
qed

lemma scan_page_one: "scan page_one [Ref ''a'' ''.js'' ''1'' ''1'' ''9'']"
  using scan_one[OF seg_ok_a[OF digits_examples(2,2,5)]] by (simp add: page_one_def)

lemma scan_page_one_out: "scan (CDN_URL @ ''a.js?v=1.1.10'') [Ref ''a'' ''.js'' ''1'' ''1'' ''10'']"
  using scan_one[OF seg_ok_a[OF digits_examples(2,2,6)]] by simp

lemma scan_page_two:
  "scan page_two [Ref ''a'' ''.js'' ''1'' ''1'' ''9'', Plain (CHR '' ''),
                  Ref ''b'' ''.css'' ''2'' ''0'' ''99'']"
  using scan_two[OF seg_ok_a[OF digits_examples(2,2,5)] seg_ok_b[OF digits_examples(3,1,7)]]
  by (simp add: page_two_def)

lemma zfill2_more:
  "zfill2 (Suc (nat_of_digits ''10'')) = ''11''"
  "zfill2 (Suc (nat_of_digits ''1'')) = ''02''"
  "zfill2 (Suc (nat_of_digits ''5'')) = ''06''"
  by code_simp+

lemma run_page_one:
  "update_cdn_versions page_one
     = Inr (CDN_URL @ ''a.js?v=1.1.10'', 1, [''a.js'' \<mapsto> (''1.1.9'', ''1.1.10'')])"
  using update_returns[OF scan_page_one]
  by (simp add: patch_fits_examples zfill2_examples changes_of_def)

lemma run_page_one_out:
  "update_cdn_versions (CDN_URL @ ''a.js?v=1.1.10'')
     = Inr (CDN_URL @ ''a.js?v=1.1.11'', 1, [''a.js'' \<mapsto> (''1.1.10'', ''1.1.11'')])"
  using update_returns[OF scan_page_one_out]
  by (simp add: patch_fits_examples zfill2_more changes_of_def)

lemma run_before:
  "update_cdn_versions (CDN_URL @ ''a.js?v=1.1.9 '')
     = Inr (CDN_URL @ ''a.js?v=1.1.10 '', 1, [''a.js'' \<mapsto> (''1.1.9'', ''1.1.10'')])"
  using update_returns[OF scan_one_space[OF seg_ok_a[OF digits_examples(2,2,5)]]]
  by (simp add: patch_fits_examples zfill2_examples changes_of_def)

lemma run_before_twice:
  "update_cdn_versions (CDN_URL @ ''a.js?v=1.0.1 '')
     = Inr (CDN_URL @ ''a.js?v=1.0.02 '', 1, [''a.js'' \<mapsto> (''1.0.1'', ''1.0.02'')])"
  using update_returns[OF scan_one_space[OF seg_ok_a[OF digits_examples(2,1,2)]]]
  by (simp add: patch_fits_examples zfill2_more changes_of_def)

lemma run_Nil: "update_cdn_versions [] = Inr ([], 0, Map.empty)"
  using update_returns[OF scan.scan_Nil] by (simp add: changes_of_def)

lemma run_plain: "update_cdn_versions ''<p>plain</p>'' = Inr (''<p>plain</p>'', 0, Map.empty)"
proof -
  have "CHR ''h'' \<notin> set ''<p>plain</p>''" by simp
  from update_no_h[OF this] show ?thesis .
qed

lemma page_two_split:
  "page_two = (CDN_URL @ ''a.js?v=1.1.9 '') @ CDN_URL @ ''b'' @ ''.css'' @ ''?v='' @ ''2'' @ ''.'' @ ''0'' @ ''.'' @ ''99'' @ []"
  by (simp add: page_two_def)

lemma page_twice_split:
  "page_twice = (CDN_URL @ ''a.js?v=1.0.1 '') @ CDN_URL @ ''a'' @ ''.js'' @ ''?v='' @ ''2'' @ ''.'' @ ''0'' @ ''.'' @ ''5'' @ []"
  by (simp add: page_twice_def)

subsection \<open>Runs at the limit of the interpreter\<close>

lemma digits_overlong: "digits (replicate 4301 (CHR ''1''))"
  by (rule digits_replicate) (simp_all add: is_digit_simps)

lemma not_fits_overlong: "\<not> patch_fits (replicate 4301 (CHR ''1''))"
  by (rule patch_fits_too_long) (simp add: int_max_str_digits_def)

lemma nat_of_digits_nines8:
  "nat_of_digits (replicate n (CHR ''9'') @ ''8'') + 1 = 10 ^ Suc n - 1"
proof -
  have "nat_of_digits (replicate n (CHR ''9'') @ ''8'')
          = 10 * nat_of_digits (replicate n (CHR ''9'')) + 8"
    by (simp only: nat_of_digits_snoc) (simp add: digit_val_def)
  moreover have "nat_of_digits (replicate n (CHR ''9'')) + 1 = 10 ^ n"
    by (rule nat_of_digits_nines)
  ultimately show ?thesis by simp
qed

lemma zfill2_nines8:
  assumes "0 < n"
  shows "zfill2 (nat_of_digits (replicate n (CHR ''9'') @ ''8'') + 1) = replicate (Suc n) (CHR ''9'')"
  unfolding nat_of_digits_nines8 zfill2_def dec_nines Let_def using assms by simp

lemma digits_nines8: "digits (replicate n (CHR ''9'') @ ''8'')"
  by (simp add: digits_def list_all_iff is_digit_simps)

lemma fits_nines8:
  assumes "Suc n \<le> int_max_str_digits"
  shows "patch_fits (replicate n (CHR ''9'') @ ''8'')"
  unfolding patch_fits_def nat_of_digits_nines8 dec_nines using assms by simp

lemma scan_overlong:
  "scan page_overlong
     [Ref ''a'' ''.js'' ''1'' ''0'' ''1'', Plain (CHR '' ''),
      Ref ''a'' ''.js'' ''2'' ''0'' (replicate 4301 (CHR ''1''))]"
  using scan_two[OF seg_ok_a[OF digits_examples(2,1,2)]
                    seg_ok_a[OF digits_examples(3,1) digits_overlong]]
  by (simp add: page_overlong_def)

lemma run_overlong: "update_cdn_versions page_overlong = Inl ValueError"
  by (rule update_raises[OF scan_overlong]) (simp add: not_fits_overlong)

lemma starts_occurrence_seg:
  assumes "seg_ok (Ref stem ext major minor patch)"
  shows "starts_occurrence (seg_src (Ref stem ext major minor patch) @ rest)"
  unfolding starts_occurrence_def using qualifies_seg_src[OF assms] by blast

subsection \<open>The theorems on these inputs\<close>

theorem every_occurrence_rewritten_witness:
  "card (occurrence_positions page_two) = 2
   \<and> (\<exists>ch. update_cdn_versions page_two
              = Inr (CDN_URL @ ''a.js?v=1.1.10 '' @ CDN_URL @ ''b.css?v=2.0.100'', 2, ch))"
proof -
  let ?segs = "[Ref ''a'' ''.js'' ''1'' ''1'' ''9'', Plain (CHR '' ''),
                Ref ''b'' ''.css'' ''2'' ''0'' ''99'']"
  note t = every_occurrence_rewritten[where content = page_two and segs = ?segs
      and stem = "''b''" and ext = "''.css''" and major = "''2''" and minor = "''0''"
      and patch = "''99''" and rest = "[]" and pre = "CDN_URL @ ''a.js?v=1.1.9 ''"
      and ?u1.0 = "CDN_URL @ ''a.js?v=1.1.10 ''" and ?n1.0 = 1
      and ?ch1.0 = "[''a.js'' \<mapsto> (''1.1.9'', ''1.1.10'')]"
      and ?u2.0 = "[]" and ?n2.0 = 0 and ?ch2.0 = Map.empty]
  have f: "list_all seg_fits ?segs" by (simp add: patch_fits_examples)
  from t scan_page_two f obtain u ch where
    1: "update_cdn_versions page_two = Inr (u, card (occurrence_positions page_two), ch)"
    by blast
  have h: "name_stem ''b'' \<and> is_ext ''.css'' \<and> digits ''2'' \<and> digits ''0'' \<and> digits ''99''
      \<and> no_digit_next [] \<and> patch_fits ''99''
      \<and> update_cdn_versions (CDN_URL @ ''a.js?v=1.1.9 '')
          = Inr (CDN_URL @ ''a.js?v=1.1.10 '', 1, [''a.js'' \<mapsto> (''1.1.9'', ''1.1.10'')])
      \<and> update_cdn_versions [] = Inr ([], 0, Map.empty)"
    using run_before run_Nil
    by (simp add: name_stem_def name_chars_ab is_ext_def digits_examples no_digit_next_def
          patch_fits_examples)
  from t h obtain ch' where
    2: "update_cdn_versions page_two
          = Inr ((CDN_URL @ ''a.js?v=1.1.10 '') @ CDN_URL @ ''b'' @ ''.css'' @ ''?v='' @ ''2''
                   @ ''.'' @ ''0'' @ ''.'' @ zfill2 (nat_of_digits ''99'' + 1) @ [],
                 1 + 1 + 0, ch')"
    unfolding page_two_split[symmetric] by blast
  from 1 2 have "card (occurrence_positions page_two) = 2" by simp
  moreover from 2 have "update_cdn_versions page_two
              = Inr (CDN_URL @ ''a.js?v=1.1.10 '' @ CDN_URL @ ''b.css?v=2.0.100'', 2, ch')"
    by (simp add: zfill2_examples)
  ultimately show ?thesis by blast
qed

text \<open>
  The claim as it was stated fails at a content with two qualifying occurrences of which
  the second has a patch group of 4301 digits: the rewrite raises, and neither occurrence
  is rewritten.
\<close>

theorem every_occurrence_rewritten_counterexample:
  "starts_occurrence
     (CDN_URL @ ''a.js?v=1.1.9 '' @ CDN_URL @ ''b.css?v=2.0.'' @ replicate 4301 (CHR ''1''))
   \<and> starts_occurrence (CDN_URL @ ''b.css?v=2.0.'' @ replicate 4301 (CHR ''1''))
   \<and> update_cdn_versions
       (CDN_URL @ ''a.js?v=1.1.9 '' @ CDN_URL @ ''b.css?v=2.0.'' @ replicate 4301 (CHR ''1''))
     = Inl ValueError"
proof -
  let ?a = "Ref ''a'' ''.js'' ''1'' ''1'' ''9''"
  let ?b = "Ref ''b'' ''.css'' ''2'' ''0'' (replicate 4301 (CHR ''1''))"
  let ?c = "CDN_URL @ ''a.js?v=1.1.9 '' @ CDN_URL @ ''b.css?v=2.0.'' @ replicate 4301 (CHR ''1'')"
  have oka: "seg_ok ?a" by (rule seg_ok_a[OF digits_examples(2,2,5)])
  have okb: "seg_ok ?b" by (rule seg_ok_b[OF digits_examples(3,1) digits_overlong])
  have c: "?c = seg_src ?a @ '' '' @ seg_src ?b" by simp
  have 1: "starts_occurrence ?c"
    unfolding c by (rule starts_occurrence_seg[OF oka])
  have 2: "starts_occurrence (CDN_URL @ ''b.css?v=2.0.'' @ replicate 4301 (CHR ''1''))"
    using starts_occurrence_seg[OF okb, of "[]"] by simp
  have "scan ?c [?a, Plain (CHR '' ''), ?b]"
    unfolding c by (rule scan_two[OF oka okb])
  then have 3: "update_cdn_versions ?c = Inl ValueError"
    by (rule update_raises) (simp add: not_fits_overlong)
  from 1 2 3 show ?thesis by blast
qed

theorem rewrite_frame_witness:
  "update_cdn_versions page_two
     = Inr (CDN_URL @ ''a.js?v=1.1.10 '' @ CDN_URL @ ''b.css?v=2.0.100'', 2,
            [''a.js'' \<mapsto> (''1.1.9'', ''1.1.10''), ''b.css'' \<mapsto> (''2.0.99'', ''2.0.100'')])
   \<and> update_cdn_versions page_overlong = Inl ValueError"
proof -
  let ?segs = "[Ref ''a'' ''.js'' ''1'' ''1'' ''9'', Plain (CHR '' ''),
                Ref ''b'' ''.css'' ''2'' ''0'' ''99'']"
  let ?long = "[Ref ''a'' ''.js'' ''1'' ''0'' ''1'', Plain (CHR '' ''),
                Ref ''a'' ''.js'' ''2'' ''0'' (replicate 4301 (CHR ''1''))]"
  have f: "list_all seg_fits ?segs" by (simp add: patch_fits_examples)
  have g: "\<not> list_all seg_fits ?long" by (simp add: not_fits_overlong)
  from rewrite_frame[of page_two ?segs] scan_page_two f
  have "update_cdn_versions page_two
          = Inr (concat (map seg_out ?segs), length (filter is_ref ?segs), changes_of ?segs)"
    by blast
  then have 1: "update_cdn_versions page_two
     = Inr (CDN_URL @ ''a.js?v=1.1.10 '' @ CDN_URL @ ''b.css?v=2.0.100'', 2,
            [''a.js'' \<mapsto> (''1.1.9'', ''1.1.10''), ''b.css'' \<mapsto> (''2.0.99'', ''2.0.100'')])"
    by (simp add: zfill2_examples changes_of_def)
  from rewrite_frame[of page_overlong ?long] scan_overlong g
  have 2: "update_cdn_versions page_overlong = Inl ValueError" by blast
  from 1 2 show ?thesis by blast
qed

text \<open>
  The claim as it was stated fails at a content that is one qualifying occurrence with a
  patch group of 4301 digits: the rewrite raises, and the matched span is not replaced.
\<close>

theorem rewrite_frame_counterexample:
  "qualifies (CDN_URL @ ''a.js?v=1.1.'' @ replicate 4301 (CHR ''1''))
   \<and> update_cdn_versions (CDN_URL @ ''a.js?v=1.1.'' @ replicate 4301 (CHR ''1''))
     = Inl ValueError"
proof -
  let ?a = "Ref ''a'' ''.js'' ''1'' ''1'' (replicate 4301 (CHR ''1''))"
  have ok: "seg_ok ?a" by (rule seg_ok_a[OF digits_examples(2,2) digits_overlong])
  have c: "CDN_URL @ ''a.js?v=1.1.'' @ replicate 4301 (CHR ''1'') = seg_src ?a" by simp
  have 1: "qualifies (CDN_URL @ ''a.js?v=1.1.'' @ replicate 4301 (CHR ''1''))"
    unfolding c by (rule qualifies_seg_src[OF ok])
  have "scan (CDN_URL @ ''a.js?v=1.1.'' @ replicate 4301 (CHR ''1'')) [?a]"
    unfolding c by (rule scan_one[OF ok])
  then have 2: "update_cdn_versions (CDN_URL @ ''a.js?v=1.1.'' @ replicate 4301 (CHR ''1''))
     = Inl ValueError"
    by (rule update_raises) (simp add: not_fits_overlong)
  from 1 2 show ?thesis by blast
qed

theorem second_run_increments_again_witness:
  "update_cdn_versions page_one
     = Inr (CDN_URL @ ''a.js?v=1.1.10'', 1, [''a.js'' \<mapsto> (''1.1.9'', ''1.1.10'')])
   \<and> update_cdn_versions (CDN_URL @ ''a.js?v=1.1.10'')
     = Inr (CDN_URL @ ''a.js?v=1.1.11'', 1, [''a.js'' \<mapsto> (''1.1.10'', ''1.1.11'')])
   \<and> CDN_URL @ ''a.js?v=1.1.11'' \<noteq> CDN_URL @ ''a.js?v=1.1.10''
   \<and> increment_version ''1.1.10'' = Inr ''1.1.11''
   \<and> changes_of (map bump [Ref ''a'' ''.js'' ''1'' ''1'' ''9'']) ''b.js'' = None"
proof -
  let ?segs = "[Ref ''a'' ''.js'' ''1'' ''1'' ''9'']"
  note t = second_run_increments_again[where content = page_one and segs = ?segs
      and f = "''a.js''" and old = "''1.1.9''" and new = "''1.1.10''"
      and u = "CDN_URL @ ''a.js?v=1.1.10''" and n = 1
      and ch = "[''a.js'' \<mapsto> (''1.1.9'', ''1.1.10'')]"
      and ?u2.0 = "CDN_URL @ ''a.js?v=1.1.11''" and ?n2.0 = 1
      and ?ch2.0 = "[''a.js'' \<mapsto> (''1.1.10'', ''1.1.11'')]"]
  have h: "scan page_one ?segs \<and> list_all seg_fits ?segs \<and> list_all seg_fits (map bump ?segs)"
    using scan_page_one by (simp add: patch_fits_examples zfill2_examples)
  have o1: "concat (map (seg_src \<circ> bump) ?segs) = CDN_URL @ ''a.js?v=1.1.10''"
    by (simp add: zfill2_examples)
  have o2: "concat (map (seg_src \<circ> bump \<circ> bump) ?segs) = CDN_URL @ ''a.js?v=1.1.11''"
    by (simp add: zfill2_examples zfill2_more)
  have c1: "changes_of ?segs = [''a.js'' \<mapsto> (''1.1.9'', ''1.1.10'')]"
    by (simp add: changes_of_def zfill2_examples)
  have c2: "changes_of (map bump ?segs) = [''a.js'' \<mapsto> (''1.1.10'', ''1.1.11'')]"
    by (simp add: changes_of_def zfill2_examples zfill2_more)
  from t h have 1: "update_cdn_versions page_one
          = Inr (concat (map (seg_src \<circ> bump) ?segs), length (filter is_ref ?segs),
                 changes_of ?segs)"
    and 2: "update_cdn_versions (concat (map (seg_src \<circ> bump) ?segs))
          = Inr (concat (map (seg_src \<circ> bump \<circ> bump) ?segs), length (filter is_ref ?segs),
                 changes_of (map bump ?segs))"
    and 3: "filter is_ref ?segs \<noteq> [] \<longrightarrow>
             concat (map (seg_src \<circ> bump \<circ> bump) ?segs) \<noteq> concat (map (seg_src \<circ> bump) ?segs)"
    and 4: "changes_of ?segs ''a.js'' = Some (''1.1.9'', ''1.1.10'') \<longrightarrow>
             (\<exists>new2. changes_of (map bump ?segs) ''a.js'' = Some (''1.1.10'', new2)
                \<and> increment_version ''1.1.10'' = Inr new2)"
    by blast+
  from 1 have a: "update_cdn_versions page_one
     = Inr (CDN_URL @ ''a.js?v=1.1.10'', 1, [''a.js'' \<mapsto> (''1.1.9'', ''1.1.10'')])"
    unfolding o1 c1 by simp
  from 2 have b: "update_cdn_versions (CDN_URL @ ''a.js?v=1.1.10'')
     = Inr (CDN_URL @ ''a.js?v=1.1.11'', 1, [''a.js'' \<mapsto> (''1.1.10'', ''1.1.11'')])"
    unfolding o1 o2 c2 by simp
  from 3 have c: "CDN_URL @ ''a.js?v=1.1.11'' \<noteq> CDN_URL @ ''a.js?v=1.1.10''"
    unfolding o1 o2 by simp
  from 4 have d: "increment_version ''1.1.10'' = Inr ''1.1.11''"
    unfolding c1 c2 by simp
  from t a b have "(1::nat) = 1 \<and> (0 < (1::nat) \<longrightarrow> CDN_URL @ ''a.js?v=1.1.11'' \<noteq> CDN_URL @ ''a.js?v=1.1.10'')"
    by blast
  have "changes_of ?segs ''b.js'' = None" unfolding c1 by simp
  with second_run_increments_again[where content = page_one and segs = ?segs and f = "''b.js''"] h
  have e: "changes_of (map bump ?segs) ''b.js'' = None" by blast
  from a b c d e show ?thesis by blast
qed

text \<open>
  The claim as it was stated fails at a content that is one qualifying occurrence whose
  patch group is 4299 nines and an 8: the first run returns, with a patch of 4300 nines,
  and the run on its output raises.
\<close>

theorem second_run_increments_again_counterexample:
  "update_cdn_versions (CDN_URL @ ''a.js?v=1.1.'' @ replicate 4299 (CHR ''9'') @ ''8'')
     = Inr (CDN_URL @ ''a.js?v=1.1.'' @ replicate 4300 (CHR ''9''), 1,
            [''a.js'' \<mapsto> (''1.1.'' @ replicate 4299 (CHR ''9'') @ ''8'',
                           ''1.1.'' @ replicate 4300 (CHR ''9''))])
   \<and> update_cdn_versions (CDN_URL @ ''a.js?v=1.1.'' @ replicate 4300 (CHR ''9''))
     = Inl ValueError"
proof -
  let ?p = "replicate 4299 (CHR ''9'') @ ''8''"
  let ?q = "replicate 4300 (CHR ''9'')"
  let ?a = "Ref ''a'' ''.js'' ''1'' ''1'' ?p"
  let ?b = "Ref ''a'' ''.js'' ''1'' ''1'' ?q"
  have dq: "digits ?q" by (rule digits_replicate) (simp_all add: is_digit_simps)
  have oka: "seg_ok ?a" by (rule seg_ok_a[OF digits_examples(2,2) digits_nines8])
  have okb: "seg_ok ?b" by (rule seg_ok_a[OF digits_examples(2,2) dq])
  have fa: "patch_fits ?p" by (rule fits_nines8) (simp add: int_max_str_digits_def)
  have fb: "\<not> patch_fits ?q" by (rule patch_fits_nines[unfolded int_max_str_digits_def])
  have z: "zfill2 (Suc (nat_of_digits ?p)) = ?q"
    using zfill2_nines8[of 4299] by simp
  have ca: "CDN_URL @ ''a.js?v=1.1.'' @ ?p = seg_src ?a" by simp
  have cb: "CDN_URL @ ''a.js?v=1.1.'' @ ?q = seg_src ?b" by simp
  have "scan (seg_src ?a) [?a]" by (rule scan_one[OF oka])
  from update_returns[OF this] fa
  have 1: "update_cdn_versions (seg_src ?a)
             = Inr (concat (map seg_out [?a]), length (filter is_ref [?a]), changes_of [?a])"
    by simp
  have 2: "update_cdn_versions (CDN_URL @ ''a.js?v=1.1.'' @ ?p)
     = Inr (CDN_URL @ ''a.js?v=1.1.'' @ ?q, 1,
            [''a.js'' \<mapsto> (''1.1.'' @ ?p, ''1.1.'' @ ?q)])"
    unfolding ca 1 by (simp add: z changes_of_def)
  have "scan (seg_src ?b) [?b]" by (rule scan_one[OF okb])
  then have "update_cdn_versions (seg_src ?b) = Inl ValueError"
    by (rule update_raises) (simp add: fb)
  then have 3: "update_cdn_versions (CDN_URL @ ''a.js?v=1.1.'' @ ?q) = Inl ValueError"
    unfolding cb .
  from 2 3 show ?thesis by blast
qed

theorem duplicate_filenames_witness:
  "(\<exists>u. update_cdn_versions page_twice = Inr (u, 2, [''a.js'' \<mapsto> (''2.0.5'', ''2.0.06'')]))
   \<and> all_version_changes
        (snd (process_files [''a.html'', ''b.html''] world_one totals_zero)) ''a.js''
        = Some (''1.1.9'', ''1.1.10'')
   \<and> all_version_changes
        (snd (process_files [''a.html'']  world_one
               \<lparr>total_changes = 1, files_modified = 1,
                  all_version_changes = [''a.js'' \<mapsto> (''0.0.1'', ''0.0.02'')]\<rparr>)) ''a.js''
        = Some (''0.0.1'', ''0.0.02'')"
proof -
  let ?t1 = "\<lparr>total_changes = 1, files_modified = 1,
               all_version_changes = [''a.js'' \<mapsto> (''0.0.1'', ''0.0.02'')]\<rparr>"
  have h: "name_stem ''a'' \<and> is_ext ''.js'' \<and> digits ''2'' \<and> digits ''0'' \<and> digits ''5''
      \<and> no_digit_next [] \<and> patch_fits ''5''
      \<and> update_cdn_versions (CDN_URL @ ''a.js?v=1.0.1 '')
          = Inr (CDN_URL @ ''a.js?v=1.0.02 '', 1, [''a.js'' \<mapsto> (''1.0.1'', ''1.0.02'')])
      \<and> update_cdn_versions [] = Inr ([], 0, Map.empty)"
    using run_before_twice run_Nil
    by (simp add: name_stem_def name_chars_ab is_ext_def digits_examples no_digit_next_def
          patch_fits_examples)
  note d = duplicate_filenames[where stem = "''a''" and ext = "''.js''" and major = "''2''"
      and minor = "''0''" and patch = "''5''" and rest = "[]"
      and pre = "CDN_URL @ ''a.js?v=1.0.1 ''"
      and ?u1.0 = "CDN_URL @ ''a.js?v=1.0.02 ''" and ?n1.0 = 1
      and ?ch1.0 = "[''a.js'' \<mapsto> (''1.0.1'', ''1.0.02'')]"
      and ?u2.0 = "[]" and ?n2.0 = 0 and ?ch2.0 = Map.empty
      and t = totals_zero and f = "''a.js''" and r = "(''1.1.9'', ''1.1.10'')"
      and ps = "[''b.html'']" and w = world_one and p = "''a.html''" and c = page_one
      and u' = "CDN_URL @ ''a.js?v=1.1.10''" and n' = 1
      and ch' = "[''a.js'' \<mapsto> (''1.1.9'', ''1.1.10'')]"]
  from d h obtain u where "update_cdn_versions page_twice
        = Inr (u, 1 + 1 + 0,
               ([''a.js'' \<mapsto> (''1.0.1'', ''1.0.02'')]
                  ++ [''a'' @ ''.js'' \<mapsto>
                        (''2'' @ ''.'' @ ''0'' @ ''.'' @ ''5'',
                         ''2'' @ ''.'' @ ''0'' @ ''.'' @ zfill2 (nat_of_digits ''5'' + 1))])
               ++ Map.empty)"
    unfolding page_twice_split[symmetric] by blast
  then have 1: "\<exists>u. update_cdn_versions page_twice
        = Inr (u, 2, [''a.js'' \<mapsto> (''2.0.5'', ''2.0.06'')])"
    by (simp add: zfill2_more)
  have g: "files world_one ''a.html'' = File page_one True
       \<and> update_cdn_versions page_one
           = Inr (CDN_URL @ ''a.js?v=1.1.10'', 1, [''a.js'' \<mapsto> (''1.1.9'', ''1.1.10'')])
       \<and> 0 < (1::nat)
       \<and> [''a.js'' \<mapsto> (''1.1.9'', ''1.1.10'')] ''a.js'' = Some (''1.1.9'', ''1.1.10'')
       \<and> all_version_changes totals_zero ''a.js'' = None"
    using run_page_one by (simp add: world_one_def totals_zero_def)
  from d g have 2: "all_version_changes
        (snd (process_files [''a.html'', ''b.html''] world_one totals_zero)) ''a.js''
        = Some (''1.1.9'', ''1.1.10'')"
    by blast
  have "all_version_changes ?t1 ''a.js'' = Some (''0.0.1'', ''0.0.02'')" by simp
  with duplicate_filenames[where t = ?t1 and f = "''a.js''" and r = "(''0.0.1'', ''0.0.02'')"
      and ps = "[''a.html'']" and w = world_one]
  have 3: "all_version_changes (snd (process_files [''a.html''] world_one ?t1)) ''a.js''
        = Some (''0.0.1'', ''0.0.02'')"
    by blast
  from 1 2 3 show ?thesis by blast
qed

text \<open>
  The claim as it was stated fails at a file whose content has the filename \<open>a.js\<close> twice,
  the second time with a patch group of 4301 digits: the rewrite raises, so that neither
  occurrence is counted and nothing is recorded; the driver reports no change for the file.
\<close>

theorem duplicate_filenames_counterexample:
  "starts_occurrence page_overlong
   \<and> starts_occurrence (CDN_URL @ ''a.js?v=2.0.'' @ replicate 4301 (CHR ''1''))
   \<and> update_cdn_versions page_overlong = Inl ValueError
   \<and> snd (process_html_file ''d.html'' world_overlong) = (False, 0, Map.empty)"
proof -
  let ?a = "Ref ''a'' ''.js'' ''1'' ''0'' ''1''"
  let ?b = "Ref ''a'' ''.js'' ''2'' ''0'' (replicate 4301 (CHR ''1''))"
  have oka: "seg_ok ?a" by (rule seg_ok_a[OF digits_examples(2,1,2)])
  have okb: "seg_ok ?b" by (rule seg_ok_a[OF digits_examples(3,1) digits_overlong])
  have c: "page_overlong = seg_src ?a @ '' '' @ seg_src ?b" by (simp add: page_overlong_def)
  have 1: "starts_occurrence page_overlong"
    unfolding c by (rule starts_occurrence_seg[OF oka])
  have 2: "starts_occurrence (CDN_URL @ ''a.js?v=2.0.'' @ replicate 4301 (CHR ''1''))"
    using starts_occurrence_seg[OF okb, of "[]"] by simp
  have f: "files world_overlong ''d.html'' = File page_overlong True"
    by (simp add: world_overlong_def)
  have 3: "snd (process_html_file ''d.html'' world_overlong) = (False, 0, Map.empty)"
    by (simp add: process_html_file_raises[OF f run_overlong])
  from 1 2 run_overlong 3 show ?thesis by blast
qed



theorem unchanged_iff_no_change_witness:
  "update_cdn_versions page_one
     = Inr (CDN_URL @ ''a.js?v=1.1.10'', 1, [''a.js'' \<mapsto> (''1.1.9'', ''1.1.10'')])
   \<and> CDN_URL @ ''a.js?v=1.1.10'' \<noteq> page_one
   \<and> ''1.1.9'' \<noteq> ''1.1.10''
   \<and> increment_version ''1.1.9'' = Inr ''1.1.10''
   \<and> update_cdn_versions ''<p>plain</p>'' = Inr (''<p>plain</p>'', 0, Map.empty)"
proof -
  note t = unchanged_iff_no_change[where content = page_one
      and u = "CDN_URL @ ''a.js?v=1.1.10''" and n = 1
      and ch = "[''a.js'' \<mapsto> (''1.1.9'', ''1.1.10'')]"
      and f = "''a.js''" and old = "''1.1.9''" and new = "''1.1.10''"]
  from t run_page_one have "(CDN_URL @ ''a.js?v=1.1.10'' = page_one) = ((1::nat) = 0)"
    by blast
  then have 1: "CDN_URL @ ''a.js?v=1.1.10'' \<noteq> page_one" by simp
  have "[''a.js'' \<mapsto> (''1.1.9'', ''1.1.10'')] ''a.js'' = Some (''1.1.9'', ''1.1.10'')"
    by simp
  with t run_page_one have 2: "''1.1.9'' \<noteq> ''1.1.10'' \<and> increment_version ''1.1.9'' = Inr ''1.1.10''"
    by blast
  note t' = unchanged_iff_no_change[where content = "''<p>plain</p>''"
      and u = "''<p>plain</p>''" and n = 0 and ch = Map.empty]
  from t' run_plain have "(''<p>plain</p>'' = ''<p>plain</p>'') = ((0::nat) = 0)" by blast
  with run_page_one run_plain 1 2 show ?thesis by blast
qed

end
